theory Spec2Isabelle
  imports Complex_Main "HOL-Library.Word"
begin

unbundle bit_operations_syntax

section \<open>The data model shared by the three codecs\<close>

text \<open>
  The library (\<^verbatim>\<open>src/hex.ts\<close>, \<^verbatim>\<open>src/base32.ts\<close>, \<^verbatim>\<open>src/base64.ts\<close>) converts a
  \<^verbatim>\<open>Uint8Array\<close> to a string and back. A \<^verbatim>\<open>Uint8Array\<close> is a list of 8-bit words. A
  string is a list of characters; every character the codecs tell apart (the alphabets
  and the pad character) is ASCII, and any other character is only ever compared with
  \<^verbatim>\<open>"="\<close> and looked up in a decode map, where it is absent.

  Every decoder throws \<^verbatim>\<open>new Error(msg)\<close> with one of three messages; the model returns
  the message as the left summand of the result.
\<close>

type_synonym byte = "8 word"

type_synonym int32 = "32 word"

datatype error =
    InvalidHexString   \<comment> \<open>\<^verbatim>\<open>"Invalid hex string"\<close>\<close>
  | InvalidCharacter   \<comment> \<open>\<^verbatim>\<open>"Invalid character"\<close>\<close>
  | InvalidPadding     \<comment> \<open>\<^verbatim>\<open>"Invalid padding"\<close>\<close>

datatype EncodingPadding = Include | NoPadding   \<comment> \<open>\<^verbatim>\<open>EncodingPadding.None\<close> is \<open>NoPadding\<close>\<close>

datatype DecodingPadding = Required | Ignore

subsection \<open>JavaScript primitives\<close>

text \<open>
  The bitwise operators of a JavaScript \<^verbatim>\<open>number\<close> work on its 32-bit two's complement
  value and return one: \<^verbatim>\<open>|\<close> and \<^verbatim>\<open>&\<close> are \<open>OR\<close> and \<open>AND\<close> on \<open>32 word\<close>,
  \<^verbatim>\<open>x << n\<close> shifts left by \<^verbatim>\<open>n & 31\<close> and drops the overflow, \<^verbatim>\<open>x >> n\<close> shifts right
  by \<^verbatim>\<open>n & 31\<close> and copies the sign bit.
\<close>

definition js_shl :: "int32 \<Rightarrow> nat \<Rightarrow> int32" where
  "js_shl x n = push_bit (n mod 32) x"

definition js_sar :: "int32 \<Rightarrow> nat \<Rightarrow> int32" where
  "js_sar x n = signed_drop_bit (n mod 32) x"

text \<open>\<^verbatim>\<open>s[k]\<close> on a string: the character at index \<open>k\<close>, or \<^verbatim>\<open>undefined\<close> (\<open>None\<close>) out of range.\<close>

definition str_at :: "string \<Rightarrow> nat \<Rightarrow> char option" where
  "str_at s k = (if k < length s then Some (s ! k) else None)"

text \<open>
  \<^verbatim>\<open>result += alphabet[n]\<close> for an integer \<open>n\<close>: the text appended is the character at
  that index, and the text \<^verbatim>\<open>undefined\<close> when the index is negative or too large.
\<close>

definition alphabet_at :: "string \<Rightarrow> int \<Rightarrow> string" where
  "alphabet_at alphabet n =
     (if 0 \<le> n \<and> nat n < length alphabet then [alphabet ! nat n] else ''undefined'')"

text \<open>
  A decode map is an object literal whose keys are single characters. \<^verbatim>\<open>c in decodeMap\<close>
  and \<^verbatim>\<open>decodeMap[c]\<close> for \<^verbatim>\<open>c = s[k]\<close> are one lookup: \<open>None\<close> when \<open>c\<close> is
  \<^verbatim>\<open>undefined\<close> (no key is the text \<^verbatim>\<open>undefined\<close>) or not a key.
\<close>

definition lookup :: "(char \<rightharpoonup> nat) \<Rightarrow> char option \<Rightarrow> nat option" where
  "lookup decodeMap c = (case c of None \<Rightarrow> None | Some ch \<Rightarrow> decodeMap ch)"

text \<open>
  A \<^verbatim>\<open>for\<close> loop over the indices \<open>js\<close> whose body can throw: the first error ends it.
\<close>

primrec for_loop :: "nat list \<Rightarrow> (nat \<Rightarrow> 's \<Rightarrow> error + 's) \<Rightarrow> 's \<Rightarrow> error + 's" where
  "for_loop [] body s = Inr s"
| "for_loop (j # js) body s =
     (case body j s of Inl e \<Rightarrow> Inl e | Inr s' \<Rightarrow> for_loop js body s')"

section \<open>Hexadecimal (\<^verbatim>\<open>src/hex.ts\<close>)\<close>

definition alphabetUpperCase :: string where
  "alphabetUpperCase = ''0123456789ABCDEF''"

definition alphabetLowerCase :: string where
  "alphabetLowerCase = ''0123456789abcdef''"

definition hex_decodeMap :: "char \<rightharpoonup> nat" where
  \<comment> \<open>\<^verbatim>\<open>decodeMap\<close> of \<^verbatim>\<open>hex.ts\<close>\<close>
  "hex_decodeMap = map_of
     [(CHR ''0'', 0), (CHR ''1'', 1), (CHR ''2'', 2), (CHR ''3'', 3), (CHR ''4'', 4),
      (CHR ''5'', 5), (CHR ''6'', 6), (CHR ''7'', 7), (CHR ''8'', 8), (CHR ''9'', 9),
      (CHR ''a'', 10), (CHR ''A'', 10), (CHR ''b'', 11), (CHR ''B'', 11),
      (CHR ''c'', 12), (CHR ''C'', 12), (CHR ''d'', 13), (CHR ''D'', 13),
      (CHR ''e'', 14), (CHR ''E'', 14), (CHR ''f'', 15), (CHR ''F'', 15)]"

text \<open>
  \<^verbatim>\<open>encodeHexUpperCase\<close> and \<^verbatim>\<open>encodeHexLowerCase\<close> are the same loop over two alphabets:
  each byte appends the character of its high nibble, then that of its low nibble.
\<close>

primrec encodeHex_loop :: "string \<Rightarrow> byte list \<Rightarrow> string \<Rightarrow> string" where
  "encodeHex_loop alphabet [] result = result"
| "encodeHex_loop alphabet (b # data) result =
     encodeHex_loop alphabet data
       ((result @ alphabet_at alphabet (sint (js_sar (ucast b) 4)))
          @ alphabet_at alphabet (sint (ucast b AND 0x0f :: int32)))"

definition encodeHexUpperCase :: "byte list \<Rightarrow> string" where
  "encodeHexUpperCase data = encodeHex_loop alphabetUpperCase data []"

definition encodeHexLowerCase :: "byte list \<Rightarrow> string" where
  "encodeHexLowerCase data = encodeHex_loop alphabetLowerCase data []"

text \<open>
  \<^verbatim>\<open>decodeHex\<close>: the length test comes first; then \<^verbatim>\<open>result\<close> is a zeroed array of
  \<^verbatim>\<open>data.length / 2\<close> bytes, and the loop ors both nibbles of each pair into
  \<^verbatim>\<open>result[i / 2]\<close>. A store into a \<^verbatim>\<open>Uint8Array\<close> keeps the low 8 bits.
\<close>

function decodeHex_loop :: "string \<Rightarrow> nat \<Rightarrow> byte list \<Rightarrow> error + byte list" where
  "decodeHex_loop data i result =
     (if i < length data then
        (case lookup hex_decodeMap (str_at data i) of
           None \<Rightarrow> Inl InvalidCharacter
         | Some hi \<Rightarrow>
             (case lookup hex_decodeMap (str_at data (i + 1)) of
                None \<Rightarrow> Inl InvalidCharacter
              | Some lo \<Rightarrow>
                  (let result1 = result[i div 2 :=
                         ucast (ucast (result ! (i div 2)) OR js_shl (of_nat hi) 4)];
                       result2 = result1[i div 2 :=
                         ucast (ucast (result1 ! (i div 2)) OR (of_nat lo :: int32))]
                   in decodeHex_loop data (i + 2) result2)))
      else Inr result)"
  by pat_completeness auto
termination
  by (relation "measure (\<lambda>(data, i, result). length data - i)") auto

declare decodeHex_loop.simps [simp del]

definition decodeHex :: "string \<Rightarrow> error + byte list" where
  "decodeHex data =
     (if length data mod 2 \<noteq> 0 then Inl InvalidHexString
      else decodeHex_loop data 0 (replicate (length data div 2) 0))"

section \<open>Base64 and Base64url (\<^verbatim>\<open>src/base64.ts\<close>)\<close>

definition base64Alphabet :: string where
  "base64Alphabet = ''ABCDEFGHIJKLMNOPQRSTUVWXYZabcdefghijklmnopqrstuvwxyz0123456789+/''"

definition base64urlAlphabet :: string where
  "base64urlAlphabet = ''ABCDEFGHIJKLMNOPQRSTUVWXYZabcdefghijklmnopqrstuvwxyz0123456789-_''"

definition base64DecodeMap :: "char \<rightharpoonup> nat" where
  "base64DecodeMap = map_of
     [(CHR ''0'', 52), (CHR ''1'', 53), (CHR ''2'', 54), (CHR ''3'', 55), (CHR ''4'', 56),
      (CHR ''5'', 57), (CHR ''6'', 58), (CHR ''7'', 59), (CHR ''8'', 60), (CHR ''9'', 61),
      (CHR ''A'', 0), (CHR ''B'', 1), (CHR ''C'', 2), (CHR ''D'', 3), (CHR ''E'', 4),
      (CHR ''F'', 5), (CHR ''G'', 6), (CHR ''H'', 7), (CHR ''I'', 8), (CHR ''J'', 9),
      (CHR ''K'', 10), (CHR ''L'', 11), (CHR ''M'', 12), (CHR ''N'', 13), (CHR ''O'', 14),
      (CHR ''P'', 15), (CHR ''Q'', 16), (CHR ''R'', 17), (CHR ''S'', 18), (CHR ''T'', 19),
      (CHR ''U'', 20), (CHR ''V'', 21), (CHR ''W'', 22), (CHR ''X'', 23), (CHR ''Y'', 24),
      (CHR ''Z'', 25), (CHR ''a'', 26), (CHR ''b'', 27), (CHR ''c'', 28), (CHR ''d'', 29),
      (CHR ''e'', 30), (CHR ''f'', 31), (CHR ''g'', 32), (CHR ''h'', 33), (CHR ''i'', 34),
      (CHR ''j'', 35), (CHR ''k'', 36), (CHR ''l'', 37), (CHR ''m'', 38), (CHR ''n'', 39),
      (CHR ''o'', 40), (CHR ''p'', 41), (CHR ''q'', 42), (CHR ''r'', 43), (CHR ''s'', 44),
      (CHR ''t'', 45), (CHR ''u'', 46), (CHR ''v'', 47), (CHR ''w'', 48), (CHR ''x'', 49),
      (CHR ''y'', 50), (CHR ''z'', 51), (CHR ''+'', 62), (CHR ''/'', 63)]"

definition base64urlDecodeMap :: "char \<rightharpoonup> nat" where
  "base64urlDecodeMap = map_of
     [(CHR ''0'', 52), (CHR ''1'', 53), (CHR ''2'', 54), (CHR ''3'', 55), (CHR ''4'', 56),
      (CHR ''5'', 57), (CHR ''6'', 58), (CHR ''7'', 59), (CHR ''8'', 60), (CHR ''9'', 61),
      (CHR ''A'', 0), (CHR ''B'', 1), (CHR ''C'', 2), (CHR ''D'', 3), (CHR ''E'', 4),
      (CHR ''F'', 5), (CHR ''G'', 6), (CHR ''H'', 7), (CHR ''I'', 8), (CHR ''J'', 9),
      (CHR ''K'', 10), (CHR ''L'', 11), (CHR ''M'', 12), (CHR ''N'', 13), (CHR ''O'', 14),
      (CHR ''P'', 15), (CHR ''Q'', 16), (CHR ''R'', 17), (CHR ''S'', 18), (CHR ''T'', 19),
      (CHR ''U'', 20), (CHR ''V'', 21), (CHR ''W'', 22), (CHR ''X'', 23), (CHR ''Y'', 24),
      (CHR ''Z'', 25), (CHR ''a'', 26), (CHR ''b'', 27), (CHR ''c'', 28), (CHR ''d'', 29),
      (CHR ''e'', 30), (CHR ''f'', 31), (CHR ''g'', 32), (CHR ''h'', 33), (CHR ''i'', 34),
      (CHR ''j'', 35), (CHR ''k'', 36), (CHR ''l'', 37), (CHR ''m'', 38), (CHR ''n'', 39),
      (CHR ''o'', 40), (CHR ''p'', 41), (CHR ''q'', 42), (CHR ''r'', 43), (CHR ''s'', 44),
      (CHR ''t'', 45), (CHR ''u'', 46), (CHR ''v'', 47), (CHR ''w'', 48), (CHR ''x'', 49),
      (CHR ''y'', 50), (CHR ''z'', 51), (CHR ''-'', 62), (CHR ''_'', 63)]"

subsection \<open>\<^verbatim>\<open>encodeBase64_internal\<close>\<close>

text \<open>
  The first inner loop, \<^verbatim>\<open>for (j = 0; j < 3 && i + j < bytes.byteLength; j++)\<close>, shifts
  up to three bytes into \<^verbatim>\<open>buffer\<close> and counts their bits.
\<close>

function encodeBase64_read :: "byte list \<Rightarrow> nat \<Rightarrow> nat \<Rightarrow> int32 \<Rightarrow> nat \<Rightarrow> int32 \<times> nat" where
  "encodeBase64_read bytes i j buffer bufferBitSize =
     (if j < 3 \<and> i + j < length bytes
      then encodeBase64_read bytes i (j + 1)
             (js_shl buffer 8 OR ucast (bytes ! (i + j))) (bufferBitSize + 8)
      else (buffer, bufferBitSize))"
  by pat_completeness auto
termination
  by (relation "measure (\<lambda>(bytes, i, j, buffer, bufferBitSize). 3 - j)") auto

declare encodeBase64_read.simps [simp del]

text \<open>
  One round of the second inner loop, \<^verbatim>\<open>for (j = 0; j < 4; j++)\<close>: a full group of six
  bits, or the remaining bits shifted left into a group, or a pad character, or nothing.
  The state is \<^verbatim>\<open>result\<close> and \<^verbatim>\<open>bufferBitSize\<close>; \<^verbatim>\<open>buffer\<close> does not change.
\<close>

definition encodeBase64_emit ::
  "string \<Rightarrow> EncodingPadding \<Rightarrow> int32 \<Rightarrow> nat \<Rightarrow> string \<times> nat \<Rightarrow> string \<times> nat" where
  "encodeBase64_emit alphabet padding buffer j s =
     (case s of (result, bufferBitSize) \<Rightarrow>
        if bufferBitSize \<ge> 6 then
          (result @ alphabet_at alphabet (sint (js_sar buffer (bufferBitSize - 6) AND 0x3f)),
           bufferBitSize - 6)
        else if bufferBitSize > 0 then
          (result @ alphabet_at alphabet (sint (js_shl buffer (6 - bufferBitSize) AND 0x3f)), 0)
        else if padding = Include then (result @ ''='', bufferBitSize)
        else (result, bufferBitSize))"

function encodeBase64_loop ::
  "byte list \<Rightarrow> string \<Rightarrow> EncodingPadding \<Rightarrow> nat \<Rightarrow> string \<Rightarrow> string" where
  "encodeBase64_loop bytes alphabet padding i result =
     (if i < length bytes then
        (case encodeBase64_read bytes i 0 0 0 of (buffer, bufferBitSize) \<Rightarrow>
           encodeBase64_loop bytes alphabet padding (i + 3)
             (fst (fold (encodeBase64_emit alphabet padding buffer) [0..<4]
                     (result, bufferBitSize))))
      else result)"
  by pat_completeness auto
termination
  by (relation "measure (\<lambda>(bytes, alphabet, padding, i, result). length bytes - i)") auto

declare encodeBase64_loop.simps [simp del]

definition encodeBase64_internal :: "byte list \<Rightarrow> string \<Rightarrow> EncodingPadding \<Rightarrow> string" where
  "encodeBase64_internal bytes alphabet padding = encodeBase64_loop bytes alphabet padding 0 []"

definition encodeBase64 :: "byte list \<Rightarrow> string" where
  "encodeBase64 bytes = encodeBase64_internal bytes base64Alphabet Include"

definition encodeBase64NoPadding :: "byte list \<Rightarrow> string" where
  "encodeBase64NoPadding bytes = encodeBase64_internal bytes base64Alphabet NoPadding"

definition encodeBase64url :: "byte list \<Rightarrow> string" where
  "encodeBase64url bytes = encodeBase64_internal bytes base64urlAlphabet Include"

definition encodeBase64urlNoPadding :: "byte list \<Rightarrow> string" where
  "encodeBase64urlNoPadding bytes = encodeBase64_internal bytes base64urlAlphabet NoPadding"

subsection \<open>\<^verbatim>\<open>decodeBase64_internal\<close>\<close>

text \<open>
  One round of the loop over the four positions of the window that starts at \<open>i\<close>. The
  state is \<^verbatim>\<open>chunk\<close> and \<^verbatim>\<open>bitsRead\<close>. In \<open>Required\<close> mode there is no test for the end
  of the input: a position past it reads \<^verbatim>\<open>undefined\<close>, which is not \<^verbatim>\<open>"="\<close> and not a
  key of the map.
\<close>

definition decodeBase64_char ::
  "string \<Rightarrow> (char \<rightharpoonup> nat) \<Rightarrow> DecodingPadding \<Rightarrow> nat \<Rightarrow> nat \<Rightarrow> int32 \<times> nat
     \<Rightarrow> error + int32 \<times> nat" where
  "decodeBase64_char encoded decodeMap padding i j s =
     (case s of (chunk, bitsRead) \<Rightarrow>
        if padding = Required \<and> str_at encoded (i + j) = Some CHR ''=''
        then Inr (chunk, bitsRead)
        else if padding = Ignore \<and>
                (i + j \<ge> length encoded \<or> str_at encoded (i + j) = Some CHR ''='')
        then Inr (chunk, bitsRead)
        else if j > 0 \<and> str_at encoded (i + j - 1) = Some CHR ''=''
        then Inl InvalidPadding
        else (case lookup decodeMap (str_at encoded (i + j)) of
                None \<Rightarrow> Inl InvalidCharacter
              | Some v \<Rightarrow> Inr (chunk OR js_shl (of_nat v) ((3 - j) * 6), bitsRead + 6)))"

definition decodeBase64_chars ::
  "string \<Rightarrow> (char \<rightharpoonup> nat) \<Rightarrow> DecodingPadding \<Rightarrow> nat \<Rightarrow> error + int32 \<times> nat" where
  "decodeBase64_chars encoded decodeMap padding i =
     for_loop [0..<4] (decodeBase64_char encoded decodeMap padding i) (0, 0)"

text \<open>The test of a short window: \<open>True\<close> where the source throws \<^verbatim>\<open>"Invalid padding"\<close>.\<close>

definition decodeBase64_bad_padding :: "int32 \<Rightarrow> nat \<Rightarrow> bool" where
  "decodeBase64_bad_padding chunk bitsRead =
     (if bitsRead < 24 then
        (if bitsRead = 12 then chunk AND 0xffff \<noteq> 0
         else if bitsRead = 18 then chunk AND 0xff \<noteq> 0
         else True)
      else False)"

text \<open>
  The bytes of a window are stored at \<^verbatim>\<open>result[totalBytes]\<close>; a store past the end of a
  \<^verbatim>\<open>Uint8Array\<close> is ignored, and so is \<open>xs[k := v]\<close> past the end of a list.
\<close>

definition decodeBase64_store :: "int32 \<Rightarrow> nat \<Rightarrow> byte list \<times> nat \<Rightarrow> byte list \<times> nat" where
  "decodeBase64_store chunk k s =
     (case s of (result, totalBytes) \<Rightarrow>
        (result[totalBytes := ucast (js_sar chunk (16 - k * 8) AND 0xff)], totalBytes + 1))"

function decodeBase64_loop ::
  "string \<Rightarrow> (char \<rightharpoonup> nat) \<Rightarrow> DecodingPadding \<Rightarrow> nat \<Rightarrow> byte list \<Rightarrow> nat
     \<Rightarrow> error + byte list \<times> nat" where
  "decodeBase64_loop encoded decodeMap padding i result totalBytes =
     (if i < length encoded then
        (case decodeBase64_chars encoded decodeMap padding i of
           Inl e \<Rightarrow> Inl e
         | Inr (chunk, bitsRead) \<Rightarrow>
             if decodeBase64_bad_padding chunk bitsRead then Inl InvalidPadding
             else
               (case fold (decodeBase64_store chunk) [0..<bitsRead div 8] (result, totalBytes)
                of (result', totalBytes') \<Rightarrow>
                  decodeBase64_loop encoded decodeMap padding (i + 4) result' totalBytes'))
      else Inr (result, totalBytes))"
  by pat_completeness auto
termination
  by (relation "measure (\<lambda>(encoded, decodeMap, padding, i, result, totalBytes).
        length encoded - i)") auto

declare decodeBase64_loop.simps [simp del]

definition decodeBase64_internal ::
  "string \<Rightarrow> (char \<rightharpoonup> nat) \<Rightarrow> DecodingPadding \<Rightarrow> error + byte list" where
  "decodeBase64_internal encoded decodeMap padding =
     (case decodeBase64_loop encoded decodeMap padding 0
             (replicate ((length encoded + 3) div 4 * 3) 0) 0 of
        Inl e \<Rightarrow> Inl e
      | Inr (result, totalBytes) \<Rightarrow> Inr (take totalBytes result))"

definition decodeBase64 :: "string \<Rightarrow> error + byte list" where
  "decodeBase64 encoded = decodeBase64_internal encoded base64DecodeMap Required"

definition decodeBase64IgnorePadding :: "string \<Rightarrow> error + byte list" where
  "decodeBase64IgnorePadding encoded = decodeBase64_internal encoded base64DecodeMap Ignore"

definition decodeBase64url :: "string \<Rightarrow> error + byte list" where
  "decodeBase64url encoded = decodeBase64_internal encoded base64urlDecodeMap Required"

definition decodeBase64urlIgnorePadding :: "string \<Rightarrow> error + byte list" where
  "decodeBase64urlIgnorePadding encoded =
     decodeBase64_internal encoded base64urlDecodeMap Ignore"

section \<open>Base32 (\<^verbatim>\<open>src/base32.ts\<close>)\<close>

text \<open>The buffers of this module are \<^verbatim>\<open>BigInt\<close>s: integers of any size, without wrap-around.\<close>

definition base32UpperCaseAlphabet :: string where
  "base32UpperCaseAlphabet = ''ABCDEFGHIJKLMNOPQRSTUVWXYZ234567''"

definition base32LowerCaseAlphabet :: string where
  "base32LowerCaseAlphabet = ''abcdefghijklmnopqrstuvwxyz234567''"

definition base32DecodeMap :: "char \<rightharpoonup> nat" where
  "base32DecodeMap = map_of
     [(CHR ''A'', 0), (CHR ''B'', 1), (CHR ''C'', 2), (CHR ''D'', 3), (CHR ''E'', 4),
      (CHR ''F'', 5), (CHR ''G'', 6), (CHR ''H'', 7), (CHR ''I'', 8), (CHR ''J'', 9),
      (CHR ''K'', 10), (CHR ''L'', 11), (CHR ''M'', 12), (CHR ''N'', 13), (CHR ''O'', 14),
      (CHR ''P'', 15), (CHR ''Q'', 16), (CHR ''R'', 17), (CHR ''S'', 18), (CHR ''T'', 19),
      (CHR ''U'', 20), (CHR ''V'', 21), (CHR ''W'', 22), (CHR ''X'', 23), (CHR ''Y'', 24),
      (CHR ''Z'', 25), (CHR ''a'', 0), (CHR ''b'', 1), (CHR ''c'', 2), (CHR ''d'', 3),
      (CHR ''e'', 4), (CHR ''f'', 5), (CHR ''g'', 6), (CHR ''h'', 7), (CHR ''i'', 8),
      (CHR ''j'', 9), (CHR ''k'', 10), (CHR ''l'', 11), (CHR ''m'', 12), (CHR ''n'', 13),
      (CHR ''o'', 14), (CHR ''p'', 15), (CHR ''q'', 16), (CHR ''r'', 17), (CHR ''s'', 18),
      (CHR ''t'', 19), (CHR ''u'', 20), (CHR ''v'', 21), (CHR ''w'', 22), (CHR ''x'', 23),
      (CHR ''y'', 24), (CHR ''z'', 25), (CHR ''2'', 26), (CHR ''3'', 27), (CHR ''4'', 28),
      (CHR ''5'', 29), (CHR ''6'', 30), (CHR ''7'', 31)]"

subsection \<open>\<^verbatim>\<open>encodeBase32_internal\<close>\<close>

function encodeBase32_read :: "byte list \<Rightarrow> nat \<Rightarrow> nat \<Rightarrow> int \<Rightarrow> nat \<Rightarrow> int \<times> nat" where
  "encodeBase32_read bytes i j buffer bufferBitSize =
     (if j < 5 \<and> i + j < length bytes
      then encodeBase32_read bytes i (j + 1)
             (push_bit 8 buffer OR uint (bytes ! (i + j))) (bufferBitSize + 8)
      else (buffer, bufferBitSize))"
  by pat_completeness auto
termination
  by (relation "measure (\<lambda>(bytes, i, j, buffer, bufferBitSize). 5 - j)") auto

declare encodeBase32_read.simps [simp del]

text \<open>
  Before any character is emitted the buffer is shifted left until its size is a
  multiple of five.
\<close>

definition encodeBase32_align :: "int \<times> nat \<Rightarrow> int \<times> nat" where
  "encodeBase32_align s =
     (case s of (buffer, bufferBitSize) \<Rightarrow>
        if bufferBitSize mod 5 \<noteq> 0
        then (push_bit (5 - bufferBitSize mod 5) buffer,
              bufferBitSize + (5 - bufferBitSize mod 5))
        else (buffer, bufferBitSize))"

definition encodeBase32_emit ::
  "string \<Rightarrow> EncodingPadding \<Rightarrow> int \<Rightarrow> nat \<Rightarrow> string \<times> nat \<Rightarrow> string \<times> nat" where
  "encodeBase32_emit alphabet padding buffer j s =
     (case s of (result, bufferBitSize) \<Rightarrow>
        if bufferBitSize \<ge> 5 then
          (result @ alphabet_at alphabet (drop_bit (bufferBitSize - 5) buffer AND 0x1f),
           bufferBitSize - 5)
        else if bufferBitSize > 0 then
          (result @ alphabet_at alphabet (push_bit (6 - bufferBitSize) buffer AND 0x3f), 0)
        else if padding = Include then (result @ ''='', bufferBitSize)
        else (result, bufferBitSize))"

function encodeBase32_loop ::
  "byte list \<Rightarrow> string \<Rightarrow> EncodingPadding \<Rightarrow> nat \<Rightarrow> string \<Rightarrow> string" where
  "encodeBase32_loop bytes alphabet padding i result =
     (if i < length bytes then
        (case encodeBase32_align (encodeBase32_read bytes i 0 0 0) of
           (buffer, bufferBitSize) \<Rightarrow>
             encodeBase32_loop bytes alphabet padding (i + 5)
               (fst (fold (encodeBase32_emit alphabet padding buffer) [0..<8]
                       (result, bufferBitSize))))
      else result)"
  by pat_completeness auto
termination
  by (relation "measure (\<lambda>(bytes, alphabet, padding, i, result). length bytes - i)") auto

declare encodeBase32_loop.simps [simp del]

definition encodeBase32_internal :: "byte list \<Rightarrow> string \<Rightarrow> EncodingPadding \<Rightarrow> string" where
  "encodeBase32_internal bytes alphabet padding = encodeBase32_loop bytes alphabet padding 0 []"

definition encodeBase32UpperCase :: "byte list \<Rightarrow> string" where
  "encodeBase32UpperCase bytes = encodeBase32_internal bytes base32UpperCaseAlphabet Include"

definition encodeBase32UpperCaseNoPadding :: "byte list \<Rightarrow> string" where
  "encodeBase32UpperCaseNoPadding bytes =
     encodeBase32_internal bytes base32UpperCaseAlphabet NoPadding"

definition encodeBase32LowerCase :: "byte list \<Rightarrow> string" where
  "encodeBase32LowerCase bytes = encodeBase32_internal bytes base32LowerCaseAlphabet Include"

definition encodeBase32LowerCaseNoPadding :: "byte list \<Rightarrow> string" where
  "encodeBase32LowerCaseNoPadding bytes =
     encodeBase32_internal bytes base32LowerCaseAlphabet NoPadding"

definition encodeBase32 :: "byte list \<Rightarrow> string" where
  "encodeBase32 bytes = encodeBase32UpperCase bytes"

definition encodeBase32NoPadding :: "byte list \<Rightarrow> string" where
  "encodeBase32NoPadding bytes = encodeBase32UpperCaseNoPadding bytes"

subsection \<open>\<^verbatim>\<open>decodeBase32_internal\<close>\<close>

text \<open>
  One round of the loop over the eight positions of the window that starts at \<open>i\<close>.
  Unlike the Base64 decoder, \<open>Required\<close> mode tests for the end of the input.
\<close>

definition decodeBase32_char ::
  "string \<Rightarrow> (char \<rightharpoonup> nat) \<Rightarrow> DecodingPadding \<Rightarrow> nat \<Rightarrow> nat \<Rightarrow> int \<times> nat
     \<Rightarrow> error + int \<times> nat" where
  "decodeBase32_char encoded decodeMap padding i j s =
     (case s of (chunk, bitsRead) \<Rightarrow>
        if padding = Required \<and> str_at encoded (i + j) = Some CHR ''=''
        then Inr (chunk, bitsRead)
        else if padding = Required \<and> i + j \<ge> length encoded
        then Inl InvalidPadding
        else if padding = Ignore \<and>
                (i + j \<ge> length encoded \<or> str_at encoded (i + j) = Some CHR ''='')
        then Inr (chunk, bitsRead)
        else if j > 0 \<and> str_at encoded (i + j - 1) = Some CHR ''=''
        then Inl InvalidPadding
        else (case lookup decodeMap (str_at encoded (i + j)) of
                None \<Rightarrow> Inl InvalidCharacter
              | Some v \<Rightarrow> Inr (chunk OR push_bit ((7 - j) * 5) (int v), bitsRead + 5)))"

definition decodeBase32_chars ::
  "string \<Rightarrow> (char \<rightharpoonup> nat) \<Rightarrow> DecodingPadding \<Rightarrow> nat \<Rightarrow> error + int \<times> nat" where
  "decodeBase32_chars encoded decodeMap padding i =
     for_loop [0..<8] (decodeBase32_char encoded decodeMap padding i) (0, 0)"

definition decodeBase32_bad_padding :: "int \<Rightarrow> nat \<Rightarrow> bool" where
  "decodeBase32_bad_padding chunk bitsRead =
     (if bitsRead < 40 then
        (if bitsRead = 10 then chunk AND 0xffffffff \<noteq> 0
         else if bitsRead = 20 then chunk AND 0xffffff \<noteq> 0
         else if bitsRead = 25 then chunk AND 0xffff \<noteq> 0
         else if bitsRead = 35 then chunk AND 0xff \<noteq> 0
         else True)
      else False)"

definition decodeBase32_store :: "int \<Rightarrow> nat \<Rightarrow> byte list \<times> nat \<Rightarrow> byte list \<times> nat" where
  "decodeBase32_store chunk k s =
     (case s of (result, totalBytes) \<Rightarrow>
        (result[totalBytes := word_of_int (drop_bit (32 - k * 8) chunk AND 0xff)],
         totalBytes + 1))"

function decodeBase32_loop ::
  "string \<Rightarrow> (char \<rightharpoonup> nat) \<Rightarrow> DecodingPadding \<Rightarrow> nat \<Rightarrow> byte list \<Rightarrow> nat
     \<Rightarrow> error + byte list \<times> nat" where
  "decodeBase32_loop encoded decodeMap padding i result totalBytes =
     (if i < length encoded then
        (case decodeBase32_chars encoded decodeMap padding i of
           Inl e \<Rightarrow> Inl e
         | Inr (chunk, bitsRead) \<Rightarrow>
             if decodeBase32_bad_padding chunk bitsRead then Inl InvalidPadding
             else
               (case fold (decodeBase32_store chunk) [0..<bitsRead div 8] (result, totalBytes)
                of (result', totalBytes') \<Rightarrow>
                  decodeBase32_loop encoded decodeMap padding (i + 8) result' totalBytes'))
      else Inr (result, totalBytes))"
  by pat_completeness auto
termination
  by (relation "measure (\<lambda>(encoded, decodeMap, padding, i, result, totalBytes).
        length encoded - i)") auto

declare decodeBase32_loop.simps [simp del]

definition decodeBase32_internal ::
  "string \<Rightarrow> (char \<rightharpoonup> nat) \<Rightarrow> DecodingPadding \<Rightarrow> error + byte list" where
  "decodeBase32_internal encoded decodeMap padding =
     (case decodeBase32_loop encoded decodeMap padding 0
             (replicate ((length encoded + 7) div 8 * 5) 0) 0 of
        Inl e \<Rightarrow> Inl e
      | Inr (result, totalBytes) \<Rightarrow> Inr (take totalBytes result))"

definition decodeBase32 :: "string \<Rightarrow> error + byte list" where
  "decodeBase32 encoded = decodeBase32_internal encoded base32DecodeMap Required"

definition decodeBase32IgnorePadding :: "string \<Rightarrow> error + byte list" where
  "decodeBase32IgnorePadding encoded = decodeBase32_internal encoded base32DecodeMap Ignore"

section \<open>Auxiliary definitions for the proofs\<close>

text \<open>
  None of the following is part of the library. They name intermediate values of the
  functions above so that the proofs can speak about them:
  the buffer an encoder has read from a chunk, the bytes a decoder stores for a window,
  the decoders seen as functions from windows to byte lists (shown below to return
  what the loops over the preallocated array return), and the relation between an
  alphabet and a decode map that makes decoding undo encoding.
\<close>

definition base64_buffer :: "byte list \<Rightarrow> int32" where
  "base64_buffer bs = fold (\<lambda>b buffer. push_bit 8 buffer OR ucast b) bs 0"

definition decodeBase64_bytes :: "int32 \<Rightarrow> nat \<Rightarrow> byte list" where
  "decodeBase64_bytes chunk bitsRead =
     map (\<lambda>k. ucast (js_sar chunk (16 - k * 8) AND 0xff)) [0..<bitsRead div 8]"

definition decodeBase64_window ::
  "string \<Rightarrow> (char \<rightharpoonup> nat) \<Rightarrow> DecodingPadding \<Rightarrow> nat \<Rightarrow> error + byte list" where
  "decodeBase64_window encoded decodeMap padding i =
     (case decodeBase64_chars encoded decodeMap padding i of
        Inl e \<Rightarrow> Inl e
      | Inr (chunk, bitsRead) \<Rightarrow>
          if decodeBase64_bad_padding chunk bitsRead then Inl InvalidPadding
          else Inr (decodeBase64_bytes chunk bitsRead))"

function decodeBase64_windows ::
  "string \<Rightarrow> (char \<rightharpoonup> nat) \<Rightarrow> DecodingPadding \<Rightarrow> nat \<Rightarrow> error + byte list" where
  "decodeBase64_windows encoded decodeMap padding i =
     (if i < length encoded then
        (case decodeBase64_window encoded decodeMap padding i of
           Inl e \<Rightarrow> Inl e
         | Inr bytes \<Rightarrow>
             (case decodeBase64_windows encoded decodeMap padding (i + 4) of
                Inl e \<Rightarrow> Inl e
              | Inr rest \<Rightarrow> Inr (bytes @ rest)))
      else Inr [])"
  by pat_completeness auto
termination
  by (relation "measure (\<lambda>(encoded, decodeMap, padding, i). length encoded - i)") auto

declare decodeBase64_windows.simps [simp del]

definition alphabet_ok :: "string \<Rightarrow> (char \<rightharpoonup> nat) \<Rightarrow> bool" where
  "alphabet_ok alphabet decodeMap \<longleftrightarrow>
     (\<forall>k < length alphabet. decodeMap (alphabet ! k) = Some k \<and> alphabet ! k \<noteq> CHR ''='')"

definition base32_buffer :: "byte list \<Rightarrow> int" where
  "base32_buffer bs = fold (\<lambda>b buffer. push_bit 8 buffer OR uint b) bs 0"

definition base32_aligned :: "byte list \<Rightarrow> int" where
  "base32_aligned bs = fst (encodeBase32_align (base32_buffer bs, 8 * length bs))"

definition base32_index :: "int \<Rightarrow> nat \<Rightarrow> nat" where
  "base32_index buffer k = nat (drop_bit k buffer AND 0x1f)"

definition decodeBase32_bytes :: "int \<Rightarrow> nat \<Rightarrow> byte list" where
  "decodeBase32_bytes chunk bitsRead =
     map (\<lambda>k. word_of_int (drop_bit (32 - k * 8) chunk AND 0xff)) [0..<bitsRead div 8]"

definition decodeBase32_window ::
  "string \<Rightarrow> (char \<rightharpoonup> nat) \<Rightarrow> DecodingPadding \<Rightarrow> nat \<Rightarrow> error + byte list" where
  "decodeBase32_window encoded decodeMap padding i =
     (case decodeBase32_chars encoded decodeMap padding i of
        Inl e \<Rightarrow> Inl e
      | Inr (chunk, bitsRead) \<Rightarrow>
          if decodeBase32_bad_padding chunk bitsRead then Inl InvalidPadding
          else Inr (decodeBase32_bytes chunk bitsRead))"

function decodeBase32_windows ::
  "string \<Rightarrow> (char \<rightharpoonup> nat) \<Rightarrow> DecodingPadding \<Rightarrow> nat \<Rightarrow> error + byte list" where
  "decodeBase32_windows encoded decodeMap padding i =
     (if i < length encoded then
        (case decodeBase32_window encoded decodeMap padding i of
           Inl e \<Rightarrow> Inl e
         | Inr bytes \<Rightarrow>
             (case decodeBase32_windows encoded decodeMap padding (i + 8) of
                Inl e \<Rightarrow> Inl e
              | Inr rest \<Rightarrow> Inr (bytes @ rest)))
      else Inr [])"
  by pat_completeness auto
termination
  by (relation "measure (\<lambda>(encoded, decodeMap, padding, i). length encoded - i)") auto

declare decodeBase32_windows.simps [simp del]

definition hex_text :: "string \<Rightarrow> byte list \<Rightarrow> string" where
  "hex_text alphabet data =
     concat (map (\<lambda>b. [alphabet ! unat (drop_bit 4 b), alphabet ! unat (take_bit 4 b)]) data)"

section \<open>Lemmas\<close>

subsection \<open>Loops, indices and bit ranges\<close>

lemma upt4: "[0..<4] = [0, 1, 2, 3]"
  by (simp add: upt_rec)

lemma m6: "(0x3f :: int32) = mask 6" by (simp add: mask_eq_exp_minus_1)
lemma m8: "(0xff :: int32) = mask 8" by (simp add: mask_eq_exp_minus_1)
lemma m16: "(0xffff :: int32) = mask 16" by (simp add: mask_eq_exp_minus_1)

lemma for_loop_bits:
  assumes "for_loop js body s = Inr s'"
    and "\<And>j t t'. body j t = Inr t' \<Longrightarrow> snd t' \<le> snd t + d"
  shows "snd s' \<le> snd s + d * length js"
  using assms(1)
proof (induction js arbitrary: s)
  case Nil
  then show ?case by simp
next
  case (Cons j js)
  then obtain t where t: "body j s = Inr t" and r: "for_loop js body t = Inr s'"
    by (auto split: sum.splits)
  from Cons.IH [OF r] assms(2) [OF t] show ?case by simp
qed

lemma str_at_append_right: "str_at (t @ rest) (length t + k) = str_at rest k"
  by (simp add: str_at_def)

lemma for_loop_cong:
  "(\<And>j s. j \<in> set js \<Longrightarrow> f j s = g j s) \<Longrightarrow> for_loop js f s = for_loop js g s"
  by (induction js arbitrary: s) (auto split: sum.splits)

lemma alphabet_ok_nth:
  assumes "alphabet_ok alphabet decodeMap" "unat (w :: int32) < length alphabet"
  shows "lookup decodeMap (Some (alphabet ! unat w)) = Some (unat w)"
    and "alphabet ! unat w \<noteq> CHR ''=''"
  using assms by (simp_all add: alphabet_ok_def lookup_def)

lemma chunk3_induct [case_names Nil One Two Three]:
  assumes "P []" "\<And>a. P [a]" "\<And>a b. P [a, b]"
    "\<And>a b c rest. P rest \<Longrightarrow> P (a # b # c # rest)"
  shows "P xs"
proof (induction "length xs" arbitrary: xs rule: less_induct)
  case less
  show ?case
  proof (cases xs)
    case Nil
    then show ?thesis using assms(1) by simp
  next
    case (Cons a xs1)
    show ?thesis
    proof (cases xs1)
      case Nil
      then show ?thesis using Cons assms(2) by simp
    next
      case (Cons b xs2)
      note c2 = this
      show ?thesis
      proof (cases xs2)
        case Nil
        then show ?thesis using \<open>xs = a # xs1\<close> c2 assms(3) by simp
      next
        case (Cons c rest)
        then show ?thesis using \<open>xs = a # xs1\<close> c2 assms(4) [of rest a b c] less [of rest] by simp
      qed
    qed
  qed
qed

lemma sextet_cases:
  assumes "\<And>m. m < 6 \<Longrightarrow> P m" "\<And>m. m < 6 \<Longrightarrow> P (6 + m)" "\<And>m. m < 6 \<Longrightarrow> P (12 + m)"
    "\<And>m. m < 6 \<Longrightarrow> P (18 + m)" "\<And>m. P (24 + m)"
  shows "P (n :: nat)"
proof -
  consider "n < 6" | "6 \<le> n \<and> n < 12" | "12 \<le> n \<and> n < 18" | "18 \<le> n \<and> n < 24" | "24 \<le> n"
    by linarith
  then show ?thesis
  proof cases
    case 1
    then show ?thesis by (rule assms(1))
  next
    case 2
    then have "n = 6 + (n - 6)" "n - 6 < 6" by auto
    then show ?thesis using assms(2) by metis
  next
    case 3
    then have "n = 12 + (n - 12)" "n - 12 < 6" by auto
    then show ?thesis using assms(3) by metis
  next
    case 4
    then have "n = 18 + (n - 18)" "n - 18 < 6" by auto
    then show ?thesis using assms(4) by metis
  next
    case 5
    then have "n = 24 + (n - 24)" by simp
    then show ?thesis using assms(5) by metis
  qed
qed

lemma upt8: "[0..<8] = [0, 1, 2, 3, 4, 5, 6, 7]"
  by (simp add: upt_rec)

lemma window_count_step:
  fixes i n w :: nat
  assumes "i < n" "0 < w"
  shows "1 + (n - (i + w) + (w - 1)) div w \<le> (n - i + (w - 1)) div w"
proof -
  define x where "x = n - (i + w) + (w - 1)"
  define y where "y = n - i + (w - 1)"
  have "1 + x div w \<le> y div w"
  proof (cases "w \<le> n - i")
    case True
    then have "y = x + w"
      unfolding x_def y_def by linarith
    then show ?thesis
      using assms(2) div_add_self2 [of w x] by simp
  next
    case False
    then have "x < w"
      unfolding x_def using assms(2) by linarith
    moreover have "w \<le> y"
      unfolding y_def using assms by linarith
    then have "0 < y div w"
      using assms(2) by (simp add: div_greater_zero_iff)
    ultimately show ?thesis
      by simp
  qed
  then show ?thesis
    unfolding x_def y_def .
qed

lemma alphabet_ok_nth_nat:
  assumes "alphabet_ok alphabet decodeMap" "v < length alphabet"
  shows "lookup decodeMap (Some (alphabet ! v)) = Some v"
    and "alphabet ! v \<noteq> CHR ''=''"
  using assms by (simp_all add: alphabet_ok_def lookup_def)

lemma chunk5_induct [case_names Nil One Two Three Four Five]:
  assumes "P []" "\<And>a. P [a]" "\<And>a b. P [a, b]" "\<And>a b c. P [a, b, c]"
    "\<And>a b c d. P [a, b, c, d]"
    "\<And>a b c d e rest. P rest \<Longrightarrow> P (a # b # c # d # e # rest)"
  shows "P xs"
proof (induction "length xs" arbitrary: xs rule: less_induct)
  case less
  consider "xs = []" | a where "xs = [a]" | a b where "xs = [a, b]"
    | a b c where "xs = [a, b, c]" | a b c d where "xs = [a, b, c, d]"
    | a b c d e rest where "xs = a # b # c # d # e # rest"
    by (cases xs rule: list.exhaust; simp)
      (metis list.exhaust)
  then show ?case
  proof cases
    case 6
    then show ?thesis using assms(6) less [of rest] by simp
  qed (simp_all add: assms(1-5))
qed

lemma m5i: "(0x1f :: int) = mask 5" by (simp add: mask_eq_exp_minus_1)
lemma m8i: "(0xff :: int) = mask 8" by (simp add: mask_eq_exp_minus_1)
lemma m16i: "(0xffff :: int) = mask 16" by (simp add: mask_eq_exp_minus_1)
lemma m24i: "(0xffffff :: int) = mask 24" by (simp add: mask_eq_exp_minus_1)
lemma m32i: "(0xffffffff :: int) = mask 32" by (simp add: mask_eq_exp_minus_1)

lemma quintet_cases:
  assumes "\<And>m. m < 5 \<Longrightarrow> P m" "\<And>m. m < 5 \<Longrightarrow> P (5 + m)" "\<And>m. m < 5 \<Longrightarrow> P (10 + m)"
    "\<And>m. m < 5 \<Longrightarrow> P (15 + m)" "\<And>m. m < 5 \<Longrightarrow> P (20 + m)" "\<And>m. m < 5 \<Longrightarrow> P (25 + m)"
    "\<And>m. m < 5 \<Longrightarrow> P (30 + m)" "\<And>m. m < 5 \<Longrightarrow> P (35 + m)" "\<And>m. P (40 + m)"
  shows "P (n :: nat)"
proof -
  consider "n < 5" | "5 \<le> n \<and> n < 10" | "10 \<le> n \<and> n < 15" | "15 \<le> n \<and> n < 20"
    | "20 \<le> n \<and> n < 25" | "25 \<le> n \<and> n < 30" | "30 \<le> n \<and> n < 35"
    | "35 \<le> n \<and> n < 40" | "40 \<le> n"
    by linarith
  then show ?thesis
  proof cases
    case 1
    then show ?thesis by (rule assms(1))
  next
    case 2
    then have "n = 5 + (n - 5)" "n - 5 < 5" by auto
    then show ?thesis using assms(2) by metis
  next
    case 3
    then have "n = 10 + (n - 10)" "n - 10 < 5" by auto
    then show ?thesis using assms(3) by metis
  next
    case 4
    then have "n = 15 + (n - 15)" "n - 15 < 5" by auto
    then show ?thesis using assms(4) by metis
  next
    case 5
    then have "n = 20 + (n - 20)" "n - 20 < 5" by auto
    then show ?thesis using assms(5) by metis
  next
    case 6
    then have "n = 25 + (n - 25)" "n - 25 < 5" by auto
    then show ?thesis using assms(6) by metis
  next
    case 7
    then have "n = 30 + (n - 30)" "n - 30 < 5" by auto
    then show ?thesis using assms(7) by metis
  next
    case 8
    then have "n = 35 + (n - 35)" "n - 35 < 5" by auto
    then show ?thesis using assms(8) by metis
  next
    case 9
    then have "n = 40 + (n - 40)" by simp
    then show ?thesis using assms(9) by metis
  qed
qed

lemma for_loop_append:
  "for_loop (js1 @ js2) body s =
     (case for_loop js1 body s of Inl e \<Rightarrow> Inl e | Inr s' \<Rightarrow> for_loop js2 body s')"
  by (induction js1 arbitrary: s) (auto split: sum.splits)

lemma for_loop_errors_aux:
  "\<forall>j \<in> set js. \<forall>s e. body j s = Inl e \<longrightarrow> e = e0 \<Longrightarrow>
     for_loop js body s = Inl e \<Longrightarrow> e = e0"
  by (induction js arbitrary: s) (auto split: sum.splits)

lemma for_loop_errors:
  assumes "\<And>j s e. j \<in> set js \<Longrightarrow> body j s = Inl e \<Longrightarrow> e = e0"
    and "for_loop js body s = Inl e"
  shows "e = e0"
  using for_loop_errors_aux [of js body e0 s e] assms by blast

lemma for_loop_some_error:
  assumes "\<And>s. \<exists>e. body j0 s = Inl e"
  shows "\<exists>e. for_loop (js1 @ j0 # js2) body s = Inl e"
proof (cases "for_loop js1 body s")
  case (Inl e)
  then show ?thesis by (simp add: for_loop_append)
next
  case (Inr s')
  with assms [of s'] show ?thesis by (auto simp add: for_loop_append)
qed

lemma for_loop_only_error:
  assumes "\<And>j s e. j \<in> set js1 \<Longrightarrow> body j s = Inl e \<Longrightarrow> e = e0"
    and "\<And>s. body j0 s = Inl e0"
  shows "for_loop (js1 @ j0 # js2) body s = Inl e0"
proof (cases "for_loop js1 body s")
  case (Inl e)
  with for_loop_errors [of js1 body e0 s e] assms(1) have "e = e0" by blast
  with Inl show ?thesis by (simp add: for_loop_append)
next
  case (Inr s')
  with assms(2) [of s'] show ?thesis by (simp add: for_loop_append)
qed

lemma upt_split_at: "j0 < n \<Longrightarrow> [0..<n] = [0..<j0] @ j0 # [Suc j0..<n]"
  using upt_add_eq_append [of 0 j0 "n - j0"] by (simp add: upt_conv_Cons)

lemma str_at_append_left: "k < length t \<Longrightarrow> str_at (t @ rest) k = str_at t k"
  by (simp add: str_at_def nth_append)

lemma window_start:
  fixes q n :: nat
  assumes "0 < n"
  shows "n dvd q - q mod n" "q - q mod n \<le> q" "q mod n < n" "q - q mod n + q mod n = q"
  using assms by (simp_all add: dvd_minus_mod)

lemma first_data_after_pad:
  fixes encoded :: string
  assumes "j < j'" "encoded ! (w + j) = CHR ''=''" "encoded ! (w + j') \<noteq> CHR ''=''"
  obtains j0 where "j < j0" "j0 \<le> j'" "encoded ! (w + j0) \<noteq> CHR ''=''"
    and "\<And>x. j \<le> x \<Longrightarrow> x < j0 \<Longrightarrow> encoded ! (w + x) = CHR ''=''"
proof -
  let ?P = "\<lambda>x. j < x \<and> encoded ! (w + x) \<noteq> CHR ''=''"
  define j0 where "j0 = (LEAST x. ?P x)"
  have ex: "?P j'"
    using assms by simp
  have 1: "j < j0 \<and> encoded ! (w + j0) \<noteq> CHR ''=''"
    unfolding j0_def using LeastI [of ?P j'] ex by blast
  have 2: "j0 \<le> j'"
    unfolding j0_def using Least_le [of ?P j'] ex by blast
  have 3: "encoded ! (w + x) = CHR ''=''" if "j \<le> x" "x < j0" for x
  proof (cases "x = j")
    case True
    then show ?thesis using assms(2) by simp
  next
    case False
    with that have "j < x" by simp
    moreover have "\<not> (j < x \<and> encoded ! (w + x) \<noteq> CHR ''='')"
      using that(2) not_less_Least [of x ?P] unfolding j0_def by blast
    ultimately show ?thesis by simp
  qed
  from that [of j0] 1 2 3 show thesis by blast
qed

subsection \<open>Base64: the encoder chunk by chunk, the decoder window by window\<close>

lemma encodeBase64_read_drop:
  "encodeBase64_read bytes i j buffer bufferBitSize =
   encodeBase64_read (drop i bytes) 0 j buffer bufferBitSize"
proof (induction bytes i j buffer bufferBitSize rule: encodeBase64_read.induct)
  case (1 bytes i j buffer bufferBitSize)
  show ?case
  proof (cases "j < 3 \<and> i + j < length bytes")
    case True
    then show ?thesis
      using 1 [OF True]
      by (subst encodeBase64_read.simps, subst (2) encodeBase64_read.simps) (auto simp add: add.commute)
  next
    case False
    then show ?thesis
      by (subst encodeBase64_read.simps, subst (2) encodeBase64_read.simps) auto
  qed
qed

lemmas rd_simps = encodeBase64_read.simps [of _ _ 0] encodeBase64_read.simps [of _ _ "Suc 0"]
      encodeBase64_read.simps [of _ _ "Suc (Suc 0)"] encodeBase64_read.simps [of _ _ "Suc (Suc (Suc 0))"]

lemma encodeBase64_read_3:
  "encodeBase64_read (a # b # c # rest) 0 0 0 0 =
     (base64_buffer [a, b, c], 24)"
  by (simp add: rd_simps js_shl_def base64_buffer_def)

lemma encodeBase64_read_2:
  "encodeBase64_read [a, b] 0 0 0 0 = (base64_buffer [a, b], 16)"
  by (simp add: rd_simps js_shl_def base64_buffer_def)

lemma encodeBase64_read_1:
  "encodeBase64_read [a] 0 0 0 0 = (base64_buffer [a], 8)"
  by (simp add: rd_simps js_shl_def base64_buffer_def)

lemma encodeBase64_emit_append:
  "fold (encodeBase64_emit alphabet padding buffer) js (result, n) =
     (result @ fst (fold (encodeBase64_emit alphabet padding buffer) js ([], n)),
      snd (fold (encodeBase64_emit alphabet padding buffer) js ([], n)))"
proof (induction js arbitrary: result n)
  case Nil
  show ?case by simp
next
  case (Cons j js)
  obtain r' n' where step: "encodeBase64_emit alphabet padding buffer j ([], n) = (r', n')"
    by (cases "encodeBase64_emit alphabet padding buffer j ([], n)")
  then have step': "encodeBase64_emit alphabet padding buffer j (result, n) = (result @ r', n')"
    by (auto simp: encodeBase64_emit_def split: if_splits)
  show ?case
    by (simp add: step step' Cons.IH [of "result @ r'"] Cons.IH [of r'])
qed

lemma encodeBase64_read_shift:
  "encodeBase64_read bytes (i + k) j buffer n = encodeBase64_read (drop k bytes) i j buffer n"
  using encodeBase64_read_drop [of bytes "i + k" j buffer n]
    encodeBase64_read_drop [of "drop k bytes" i j buffer n]
  by (simp add: add.commute)

lemma encodeBase64_loop_acc:
  "encodeBase64_loop bytes alphabet padding i result =
     result @ encodeBase64_loop bytes alphabet padding i []"
proof (induction "length bytes - i" arbitrary: i result rule: less_induct)
  case less
  show ?case
  proof (cases "i < length bytes")
    case False
    then show ?thesis by (simp add: encodeBase64_loop.simps)
  next
    case True
    obtain buffer n where rd: "encodeBase64_read bytes i 0 0 0 = (buffer, n)"
      by (cases "encodeBase64_read bytes i 0 0 0")
    define t where "t = fst (fold (encodeBase64_emit alphabet padding buffer) [0..<4] ([], n))"
    have lt: "length bytes - (i + 3) < length bytes - i"
      using True by simp
    have "encodeBase64_loop bytes alphabet padding i result =
            encodeBase64_loop bytes alphabet padding (i + 3) (result @ t)"
      using True
      by (subst encodeBase64_loop.simps)
        (simp add: rd encodeBase64_emit_append [of _ _ _ _ result] t_def)
    also have "\<dots> = (result @ t) @ encodeBase64_loop bytes alphabet padding (i + 3) []"
      by (rule less [OF lt])
    also have "\<dots> = result @ encodeBase64_loop bytes alphabet padding (i + 3) t"
      using less [OF lt, of t] by simp
    also have "encodeBase64_loop bytes alphabet padding (i + 3) t =
            encodeBase64_loop bytes alphabet padding i []"
      using True
      by (subst (2) encodeBase64_loop.simps) (simp add: rd t_def)
    finally show ?thesis .
  qed
qed

lemma encodeBase64_loop_shift:
  "encodeBase64_loop bytes alphabet padding (i + k) result =
     encodeBase64_loop (drop k bytes) alphabet padding i result"
proof (induction "length bytes - (i + k)" arbitrary: i result rule: less_induct)
  case less
  show ?case
  proof (cases "i + k < length bytes")
    case False
    then show ?thesis by (simp add: encodeBase64_loop.simps)
  next
    case True
    have lt: "length bytes - (i + 3 + k) < length bytes - (i + k)"
      using True by simp
    have ik: "i < length (drop k bytes)"
      using True by simp
    obtain buffer n where rd: "encodeBase64_read (drop k bytes) i 0 0 0 = (buffer, n)"
      by (cases "encodeBase64_read (drop k bytes) i 0 0 0")
    have "encodeBase64_loop bytes alphabet padding (i + k) result =
            encodeBase64_loop bytes alphabet padding (i + 3 + k)
              (fst (fold (encodeBase64_emit alphabet padding buffer) [0..<4] (result, n)))"
      using True
      by (subst encodeBase64_loop.simps) (simp add: encodeBase64_read_shift rd ac_simps)
    also have "\<dots> = encodeBase64_loop (drop k bytes) alphabet padding (i + 3)
              (fst (fold (encodeBase64_emit alphabet padding buffer) [0..<4] (result, n)))"
      by (rule less [OF lt])
    also have "\<dots> = encodeBase64_loop (drop k bytes) alphabet padding i result"
      using ik by (subst (2) encodeBase64_loop.simps) (simp add: rd)
    finally show ?thesis .
  qed
qed

lemma encodeBase64_internal_Nil: "encodeBase64_internal [] alphabet padding = []"
  by (simp add: encodeBase64_internal_def encodeBase64_loop.simps)

lemma encodeBase64_internal_step:
  assumes "bytes \<noteq> []"
  shows "encodeBase64_internal bytes alphabet padding =
     (case encodeBase64_read bytes 0 0 0 0 of (buffer, n) \<Rightarrow>
        fst (fold (encodeBase64_emit alphabet padding buffer) [0..<4] ([], n)))
     @ encodeBase64_internal (drop 3 bytes) alphabet padding"
proof -
  obtain buffer n where rd: "encodeBase64_read bytes 0 0 0 0 = (buffer, n)"
    by (cases "encodeBase64_read bytes 0 0 0 0")
  show ?thesis
    unfolding encodeBase64_internal_def
    using assms encodeBase64_loop_shift [of bytes alphabet padding 0 3 "[]"]
    by (subst encodeBase64_loop.simps, subst encodeBase64_loop_acc) (simp add: rd)
qed

lemma sint_and_mask6: "sint (x AND 0x3f :: int32) = uint (x AND 0x3f)"
  unfolding m6
  by (rule bit_eqI) (auto simp add: bit_simps)

lemma unat_and_mask6: "unat (x AND 0x3f :: int32) < 64"
proof -
  have "x AND mask 6 < 2 ^ 6" by (rule and_mask_less') simp
  then show ?thesis unfolding m6 by (simp add: word_less_nat_alt)
qed

lemma alphabet_at_mask6:
  "length alphabet = 64 \<Longrightarrow>
     alphabet_at alphabet (sint (x AND 0x3f :: int32)) = [alphabet ! unat (x AND 0x3f)]"
  using unat_and_mask6 [of x] by (simp add: alphabet_at_def sint_and_mask6)

lemma encodeBase64_internal_3:
  assumes "length alphabet = 64"
  shows "encodeBase64_internal (a # b # c # rest) alphabet padding =
     [alphabet ! unat (signed_drop_bit 18 (base64_buffer [a, b, c]) AND 0x3f),
      alphabet ! unat (signed_drop_bit 12 (base64_buffer [a, b, c]) AND 0x3f),
      alphabet ! unat (signed_drop_bit 6 (base64_buffer [a, b, c]) AND 0x3f),
      alphabet ! unat ((base64_buffer [a, b, c]) AND 0x3f)]
     @ encodeBase64_internal rest alphabet padding"
  by (simp add: encodeBase64_internal_step encodeBase64_read_3 upt4 encodeBase64_emit_def
      js_sar_def js_shl_def alphabet_at_mask6 [OF assms])

lemma encodeBase64_internal_2:
  assumes "length alphabet = 64"
  shows "encodeBase64_internal [a, b] alphabet padding =
     [alphabet ! unat (signed_drop_bit 10 (base64_buffer [a, b]) AND 0x3f),
      alphabet ! unat (signed_drop_bit 4 (base64_buffer [a, b]) AND 0x3f),
      alphabet ! unat (push_bit 2 (base64_buffer [a, b]) AND 0x3f)]
     @ (if padding = Include then ''='' else [])"
  by (simp add: encodeBase64_internal_step encodeBase64_internal_Nil encodeBase64_read_2 upt4 encodeBase64_emit_def
      js_sar_def js_shl_def alphabet_at_mask6 [OF assms])

lemma encodeBase64_internal_1:
  assumes "length alphabet = 64"
  shows "encodeBase64_internal [a] alphabet padding =
     [alphabet ! unat (signed_drop_bit 2 (base64_buffer [a]) AND 0x3f),
      alphabet ! unat (push_bit 4 (base64_buffer [a]) AND 0x3f)]
     @ (if padding = Include then ''=='' else [])"
  by (simp add: encodeBase64_internal_step encodeBase64_internal_Nil encodeBase64_read_1 upt4 encodeBase64_emit_def
      js_sar_def js_shl_def alphabet_at_mask6 [OF assms])

lemma decodeBase64_chars_bits:
  assumes "decodeBase64_chars encoded decodeMap padding i = Inr (chunk, bitsRead)"
  shows "bitsRead \<le> 24"
proof -
  have "snd (chunk, bitsRead) \<le> snd (0 :: int32, 0 :: nat) + 6 * length [0..<4]"
    by (rule for_loop_bits [OF assms [unfolded decodeBase64_chars_def]])
      (auto simp: decodeBase64_char_def split: if_splits option.splits)
  then show ?thesis by simp
qed

lemma decodeBase64_store_fold:
  "fold (decodeBase64_store chunk) ks (result, totalBytes) = (result', totalBytes') \<Longrightarrow>
     totalBytes' = totalBytes + length ks \<and> length result' = length result \<and>
     (totalBytes + length ks \<le> length result \<longrightarrow>
        take totalBytes' result' =
          take totalBytes result @ map (\<lambda>k. ucast (js_sar chunk (16 - k * 8) AND 0xff)) ks)"
proof (induction ks arbitrary: result totalBytes)
  case Nil
  then show ?case by simp
next
  case (Cons k ks)
  let ?v = "ucast (js_sar chunk (16 - k * 8) AND 0xff) :: byte"
  have "decodeBase64_store chunk k (result, totalBytes) = (result[totalBytes := ?v], totalBytes + 1)"
    by (simp add: decodeBase64_store_def)
  with Cons.prems have
    "fold (decodeBase64_store chunk) ks (result[totalBytes := ?v], totalBytes + 1)
       = (result', totalBytes')"
    by simp
  from Cons.IH [OF this] show ?case
    by (auto simp: take_Suc_conv_app_nth)
qed

lemma decodeBase64_loop_windows:
  assumes "totalBytes + 3 * ((length encoded - i + 3) div 4) \<le> length result"
  shows "(case decodeBase64_loop encoded decodeMap padding i result totalBytes of
            Inl e \<Rightarrow> Inl e | Inr (r, t) \<Rightarrow> Inr (take t r))
       = (case decodeBase64_windows encoded decodeMap padding i of
            Inl e \<Rightarrow> Inl e | Inr bytes \<Rightarrow> Inr (take totalBytes result @ bytes))"
  using assms
proof (induction "length encoded - i" arbitrary: i result totalBytes rule: less_induct)
  case less
  show ?case
  proof (cases "i < length encoded")
    case False
    then show ?thesis
      by (simp add: decodeBase64_loop.simps decodeBase64_windows.simps)
  next
    case True
    show ?thesis
    proof (cases "decodeBase64_chars encoded decodeMap padding i")
      case (Inl e)
      then show ?thesis
        using True
        by (simp add: decodeBase64_loop.simps decodeBase64_windows.simps decodeBase64_window_def)
    next
      case (Inr s)
      obtain chunk bitsRead where s: "s = (chunk, bitsRead)" by (cases s)
      have bits: "bitsRead \<le> 24"
        using Inr decodeBase64_chars_bits unfolding s by blast
      show ?thesis
      proof (cases "decodeBase64_bad_padding chunk bitsRead")
        case bad: True
        then show ?thesis
          using True Inr s
          by (simp add: decodeBase64_loop.simps decodeBase64_windows.simps
              decodeBase64_window_def)
      next
        case good: False
        obtain r' t' where st:
          "fold (decodeBase64_store chunk) [0..<bitsRead div 8] (result, totalBytes) = (r', t')"
          by (cases "fold (decodeBase64_store chunk) [0..<bitsRead div 8] (result, totalBytes)")
        have cap: "totalBytes + bitsRead div 8 + 3 * ((length encoded - (i + 4) + 3) div 4)
                     \<le> length result"
        proof -
          have "bitsRead div 8 \<le> 3"
            using bits by simp
          moreover have "1 + (length encoded - (i + 4) + 3) div 4 \<le> (length encoded - i + 3) div 4"
            using window_count_step [of i "length encoded" 4] True by simp
          ultimately show ?thesis
            using less.prems by linarith
        qed
        from decodeBase64_store_fold [OF st] cap
        have t': "t' = totalBytes + bitsRead div 8" and len: "length r' = length result"
          and tk: "take t' r' = take totalBytes result @ decodeBase64_bytes chunk bitsRead"
          by (auto simp add: decodeBase64_bytes_def)
        have lt: "length encoded - (i + 4) < length encoded - i"
          using True by simp
        have cap': "t' + 3 * ((length encoded - (i + 4) + 3) div 4) \<le> length r'"
          using cap by (simp add: t' len)
        show ?thesis
          using True Inr s good st less.hyps [OF lt cap'] tk
          by (subst decodeBase64_loop.simps, subst decodeBase64_windows.simps)
            (simp add: decodeBase64_window_def split: sum.splits)
      qed
    qed
  qed
qed

lemma decodeBase64_internal_windows:
  "decodeBase64_internal encoded decodeMap padding =
     decodeBase64_windows encoded decodeMap padding 0"
proof -
  have "0 + 3 * ((length encoded - 0 + 3) div 4)
          \<le> length (replicate ((length encoded + 3) div 4 * 3) (0 :: byte))"
    by simp
  from decodeBase64_loop_windows [OF this, of decodeMap padding]
  show ?thesis
    by (simp add: decodeBase64_internal_def split: sum.splits)
qed

lemma decodeBase64_char_shift:
  "decodeBase64_char (t @ rest) decodeMap padding (length t + i) =
     decodeBase64_char rest decodeMap padding i"
proof (intro ext)
  fix j s
  have a: "str_at (t @ rest) (length t + i + j) = str_at rest (i + j)"
    using str_at_append_right [of t rest "i + j"] by (simp add: add.assoc)
  have b: "(0 < j \<and> str_at (t @ rest) (length t + i + j - 1) = Some CHR ''='') =
      (0 < j \<and> str_at rest (i + j - 1) = Some CHR ''='')"
    using str_at_append_right [of t rest "i + j - 1"] by (cases j) (simp_all add: add.assoc)
  have c: "(length (t @ rest) \<le> length t + i + j) = (length rest \<le> i + j)"
    by simp
  show "decodeBase64_char (t @ rest) decodeMap padding (length t + i) j s =
     decodeBase64_char rest decodeMap padding i j s"
    unfolding decodeBase64_char_def a b c ..
qed

lemma decodeBase64_windows_shift:
  "decodeBase64_windows (t @ rest) decodeMap padding (length t + i) =
     decodeBase64_windows rest decodeMap padding i"
proof (induction "length rest - i" arbitrary: i rule: less_induct)
  case less
  have w: "decodeBase64_window (t @ rest) decodeMap padding (length t + i) =
        decodeBase64_window rest decodeMap padding i"
    by (simp add: decodeBase64_window_def decodeBase64_chars_def decodeBase64_char_shift)
  show ?case
  proof (cases "i < length rest")
    case False
    then show ?thesis by (simp add: decodeBase64_windows.simps)
  next
    case True
    then have lt: "length rest - (i + 4) < length rest - i" by simp
    have IH: "decodeBase64_windows (t @ rest) decodeMap padding (length t + i + 4) =
        decodeBase64_windows rest decodeMap padding (i + 4)"
      using less [OF lt] by (simp add: add.assoc)
    show ?thesis
      using True
      by (subst decodeBase64_windows.simps, subst (2) decodeBase64_windows.simps)
        (simp add: w IH cong: sum.case_cong)
  qed
qed

lemma decodeBase64_windows_Nil: "decodeBase64_windows [] decodeMap padding 0 = Inr []"
  by (simp add: decodeBase64_windows.simps)

lemma decodeBase64_windows_4:
  "decodeBase64_windows (c0 # c1 # c2 # c3 # rest) decodeMap padding 0 =
     (case decodeBase64_window (c0 # c1 # c2 # c3 # rest) decodeMap padding 0 of
        Inl e \<Rightarrow> Inl e
      | Inr bytes \<Rightarrow>
          (case decodeBase64_windows rest decodeMap padding 0 of
             Inl e \<Rightarrow> Inl e | Inr more \<Rightarrow> Inr (bytes @ more)))"
proof -
  have "decodeBase64_windows ([c0, c1, c2, c3] @ rest) decodeMap padding
          (length [c0, c1, c2, c3] + 0) = decodeBase64_windows rest decodeMap padding 0"
    by (rule decodeBase64_windows_shift)
  then have "decodeBase64_windows (c0 # c1 # c2 # c3 # rest) decodeMap padding 4 =
      decodeBase64_windows rest decodeMap padding 0"
    by (simp add: eval_nat_numeral)
  then show ?thesis
    by (subst decodeBase64_windows.simps) (simp cong: sum.case_cong)
qed

lemma decodeBase64_windows_short:
  "0 < length encoded \<Longrightarrow> length encoded \<le> 4 \<Longrightarrow>
   decodeBase64_windows encoded decodeMap padding 0 =
     decodeBase64_window encoded decodeMap padding 0"
  by (subst decodeBase64_windows.simps, subst decodeBase64_windows.simps)
    (simp split: sum.splits)

lemmas decodeBase64_chars_simps =
  decodeBase64_chars_def upt4 decodeBase64_char_def str_at_def js_shl_def

lemma decodeBase64_chars_4:
  assumes "alphabet_ok alphabet decodeMap"
    and "unat w0 < length alphabet" "unat w1 < length alphabet"
    and "unat w2 < length alphabet" "unat w3 < length alphabet"
  shows "decodeBase64_chars
     (alphabet ! unat w0 # alphabet ! unat w1 # alphabet ! unat w2 # alphabet ! unat w3 # rest)
     decodeMap padding 0 =
     Inr (push_bit 18 w0 OR push_bit 12 w1 OR push_bit 6 w2 OR w3, 24)"
  using assms(2-) by (cases padding)
    (simp_all add: decodeBase64_chars_simps alphabet_ok_nth [OF assms(1)] or.assoc)

lemma decodeBase64_chars_3_pad:
  assumes "alphabet_ok alphabet decodeMap"
    and "unat w0 < length alphabet" "unat w1 < length alphabet" "unat w2 < length alphabet"
  shows "decodeBase64_chars
     (alphabet ! unat w0 # alphabet ! unat w1 # alphabet ! unat w2 # CHR ''='' # rest)
     decodeMap padding 0 =
     Inr (push_bit 18 w0 OR push_bit 12 w1 OR push_bit 6 w2, 18)"
  using assms(2-) by (cases padding)
    (simp_all add: decodeBase64_chars_simps alphabet_ok_nth [OF assms(1)] or.assoc)

lemma decodeBase64_chars_2_pad:
  assumes "alphabet_ok alphabet decodeMap"
    and "unat w0 < length alphabet" "unat w1 < length alphabet"
  shows "decodeBase64_chars
     (alphabet ! unat w0 # alphabet ! unat w1 # CHR ''='' # CHR ''='' # rest)
     decodeMap padding 0 =
     Inr (push_bit 18 w0 OR push_bit 12 w1, 12)"
  using assms(2-) by (cases padding)
    (simp_all add: decodeBase64_chars_simps alphabet_ok_nth [OF assms(1)] or.assoc)

lemma decodeBase64_chars_3_end:
  assumes "alphabet_ok alphabet decodeMap"
    and "unat w0 < length alphabet" "unat w1 < length alphabet" "unat w2 < length alphabet"
  shows "decodeBase64_chars [alphabet ! unat w0, alphabet ! unat w1, alphabet ! unat w2]
     decodeMap Ignore 0 =
     Inr (push_bit 18 w0 OR push_bit 12 w1 OR push_bit 6 w2, 18)"
  using assms(2-)
  by (simp_all add: decodeBase64_chars_simps alphabet_ok_nth [OF assms(1)] or.assoc)

lemma decodeBase64_chars_2_end:
  assumes "alphabet_ok alphabet decodeMap"
    and "unat w0 < length alphabet" "unat w1 < length alphabet"
  shows "decodeBase64_chars [alphabet ! unat w0, alphabet ! unat w1] decodeMap Ignore 0 =
     Inr (push_bit 18 w0 OR push_bit 12 w1, 12)"
  using assms(2-)
  by (simp_all add: decodeBase64_chars_simps alphabet_ok_nth [OF assms(1)] or.assoc)

lemma decodeBase64_bytes_24:
  "decodeBase64_bytes chunk 24 =
     [ucast (signed_drop_bit 16 chunk AND 0xff), ucast (signed_drop_bit 8 chunk AND 0xff),
      ucast (chunk AND 0xff)]"
  by (simp add: decodeBase64_bytes_def upt_rec js_sar_def)

lemma decodeBase64_bytes_18:
  "decodeBase64_bytes chunk 18 =
     [ucast (signed_drop_bit 16 chunk AND 0xff), ucast (signed_drop_bit 8 chunk AND 0xff)]"
  by (simp add: decodeBase64_bytes_def upt_rec js_sar_def)

lemma decodeBase64_bytes_12:
  "decodeBase64_bytes chunk 12 = [ucast (signed_drop_bit 16 chunk AND 0xff)]"
  by (simp add: decodeBase64_bytes_def upt_rec js_sar_def)

lemma base64_chunk_3:
  fixes B :: int32
  shows "push_bit 18 (signed_drop_bit 18 B AND 0x3f)
      OR push_bit 12 (signed_drop_bit 12 B AND 0x3f)
      OR push_bit 6 (signed_drop_bit 6 B AND 0x3f) OR (B AND 0x3f) = take_bit 24 B"
  unfolding m6
proof (rule bit_word_eqI)
  fix n
  show "bit (push_bit 18 (signed_drop_bit 18 B AND mask 6) OR
             push_bit 12 (signed_drop_bit 12 B AND mask 6) OR
             push_bit 6 (signed_drop_bit 6 B AND mask 6) OR B AND mask 6) n =
         bit (take_bit 24 B) n"
    by (rule sextet_cases [of _ n]) (auto simp add: bit_simps)
qed

lemma base64_chunk_2:
  fixes B :: int32
  shows "push_bit 18 (signed_drop_bit 10 B AND 0x3f)
      OR push_bit 12 (signed_drop_bit 4 B AND 0x3f)
      OR push_bit 6 (push_bit 2 B AND 0x3f) = push_bit 8 (take_bit 16 B)"
  unfolding m6
proof (rule bit_word_eqI)
  fix n
  show "bit (push_bit 18 (signed_drop_bit 10 B AND mask 6) OR
             push_bit 12 (signed_drop_bit 4 B AND mask 6) OR
             push_bit 6 (push_bit 2 B AND mask 6)) n =
         bit (push_bit 8 (take_bit 16 B)) n"
    by (rule sextet_cases [of _ n]) (auto simp add: bit_simps)
qed

lemma base64_chunk_1:
  fixes B :: int32
  shows "push_bit 18 (signed_drop_bit 2 B AND 0x3f)
      OR push_bit 12 (push_bit 4 B AND 0x3f) = push_bit 16 (take_bit 8 B)"
  unfolding m6
proof (rule bit_word_eqI)
  fix n
  show "bit (push_bit 18 (signed_drop_bit 2 B AND mask 6) OR
             push_bit 12 (push_bit 4 B AND mask 6)) n =
         bit (push_bit 16 (take_bit 8 B)) n"
    by (rule sextet_cases [of _ n]) (auto simp add: bit_simps)
qed

lemma base64_bytes_3:
  fixes a b c :: byte
  defines "X \<equiv> take_bit 24 (base64_buffer [a, b, c])"
  shows "ucast (signed_drop_bit 16 X AND 0xff) = a"
    and "ucast (signed_drop_bit 8 X AND 0xff) = b"
    and "ucast (X AND 0xff) = c"
  unfolding X_def m8 base64_buffer_def
  by (rule bit_word_eqI; simp add: bit_simps; auto dest: bit_imp_le_length)+

lemma base64_bytes_2:
  fixes a b :: byte
  defines "X \<equiv> push_bit 8 (take_bit 16 (base64_buffer [a, b]))"
  shows "ucast (signed_drop_bit 16 X AND 0xff) = a"
    and "ucast (signed_drop_bit 8 X AND 0xff) = b"
    and "X AND 0xff = 0"
  unfolding X_def m8 base64_buffer_def
  by (rule bit_word_eqI; simp add: bit_simps; auto dest: bit_imp_le_length)+

lemma base64_bytes_1:
  fixes a :: byte
  defines "X \<equiv> push_bit 16 (take_bit 8 (base64_buffer [a]))"
  shows "ucast (signed_drop_bit 16 X AND 0xff) = a"
    and "X AND 0xffff = 0"
  unfolding X_def m8 m16 base64_buffer_def
  by (rule bit_word_eqI; simp add: bit_simps; auto dest: bit_imp_le_length)+

lemma decodeBase64_window_of_chars:
  "decodeBase64_chars encoded decodeMap padding i = Inr (chunk, bitsRead) \<Longrightarrow>
   \<not> decodeBase64_bad_padding chunk bitsRead \<Longrightarrow>
   decodeBase64_window encoded decodeMap padding i = Inr (decodeBase64_bytes chunk bitsRead)"
  by (simp add: decodeBase64_window_def)

lemma decodeBase64_bad_padding_24: "decodeBase64_bad_padding chunk 24 = False"
  by (simp add: decodeBase64_bad_padding_def)

lemma decodeBase64_bad_padding_18:
  "decodeBase64_bad_padding chunk 18 = (chunk AND 0xff \<noteq> 0)"
  by (simp add: decodeBase64_bad_padding_def)

lemma decodeBase64_bad_padding_12:
  "decodeBase64_bad_padding chunk 12 = (chunk AND 0xffff \<noteq> 0)"
  by (simp add: decodeBase64_bad_padding_def)

lemma decodeBase64_window_3:
  assumes "alphabet_ok alphabet decodeMap" "length alphabet = 64"
  shows "decodeBase64_window
     (alphabet ! unat (signed_drop_bit 18 (base64_buffer [a, b, c]) AND 0x3f) #
      alphabet ! unat (signed_drop_bit 12 (base64_buffer [a, b, c]) AND 0x3f) #
      alphabet ! unat (signed_drop_bit 6 (base64_buffer [a, b, c]) AND 0x3f) #
      alphabet ! unat (base64_buffer [a, b, c] AND 0x3f) # rest)
     decodeMap padding 0
     = Inr [a, b, c]"
proof -
  have "decodeBase64_chars
     (alphabet ! unat (signed_drop_bit 18 (base64_buffer [a, b, c]) AND 0x3f) #
      alphabet ! unat (signed_drop_bit 12 (base64_buffer [a, b, c]) AND 0x3f) #
      alphabet ! unat (signed_drop_bit 6 (base64_buffer [a, b, c]) AND 0x3f) #
      alphabet ! unat (base64_buffer [a, b, c] AND 0x3f) # rest)
     decodeMap padding 0 =
     Inr (push_bit 18 (signed_drop_bit 18 (base64_buffer [a, b, c]) AND 0x3f) OR push_bit 12 (signed_drop_bit 12 (base64_buffer [a, b, c]) AND 0x3f) OR push_bit 6 (signed_drop_bit 6 (base64_buffer [a, b, c]) AND 0x3f) OR (base64_buffer [a, b, c] AND 0x3f), 24)"
    by (rule decodeBase64_chars_4 [OF assms(1)]) (simp_all add: assms(2) unat_and_mask6)
  then have c: "decodeBase64_chars
     (alphabet ! unat (signed_drop_bit 18 (base64_buffer [a, b, c]) AND 0x3f) #
      alphabet ! unat (signed_drop_bit 12 (base64_buffer [a, b, c]) AND 0x3f) #
      alphabet ! unat (signed_drop_bit 6 (base64_buffer [a, b, c]) AND 0x3f) #
      alphabet ! unat (base64_buffer [a, b, c] AND 0x3f) # rest)
     decodeMap padding 0 =
     Inr (take_bit 24 (base64_buffer [a, b, c]), 24)"
    by (simp only: base64_chunk_3)
  have nb: "\<not> decodeBase64_bad_padding (take_bit 24 (base64_buffer [a, b, c])) 24"
    by (simp only: decodeBase64_bad_padding_24 base64_bytes_3 not_not simp_thms)
  have "decodeBase64_bytes (take_bit 24 (base64_buffer [a, b, c])) 24 = [a, b, c]"
    by (simp only: decodeBase64_bytes_24 base64_bytes_3)
  with decodeBase64_window_of_chars [OF c nb] show ?thesis
    by (simp only:)
qed

lemma decodeBase64_window_2_pad:
  assumes "alphabet_ok alphabet decodeMap" "length alphabet = 64"
  shows "decodeBase64_window
     (alphabet ! unat (signed_drop_bit 10 (base64_buffer [a, b]) AND 0x3f) #
      alphabet ! unat (signed_drop_bit 4 (base64_buffer [a, b]) AND 0x3f) #
      alphabet ! unat (push_bit 2 (base64_buffer [a, b]) AND 0x3f) # CHR ''='' # rest)
     decodeMap padding 0
     = Inr [a, b]"
proof -
  have "decodeBase64_chars
     (alphabet ! unat (signed_drop_bit 10 (base64_buffer [a, b]) AND 0x3f) #
      alphabet ! unat (signed_drop_bit 4 (base64_buffer [a, b]) AND 0x3f) #
      alphabet ! unat (push_bit 2 (base64_buffer [a, b]) AND 0x3f) # CHR ''='' # rest)
     decodeMap padding 0 =
     Inr (push_bit 18 (signed_drop_bit 10 (base64_buffer [a, b]) AND 0x3f) OR push_bit 12 (signed_drop_bit 4 (base64_buffer [a, b]) AND 0x3f) OR push_bit 6 (push_bit 2 (base64_buffer [a, b]) AND 0x3f), 18)"
    by (rule decodeBase64_chars_3_pad [OF assms(1)]) (simp_all add: assms(2) unat_and_mask6)
  then have c: "decodeBase64_chars
     (alphabet ! unat (signed_drop_bit 10 (base64_buffer [a, b]) AND 0x3f) #
      alphabet ! unat (signed_drop_bit 4 (base64_buffer [a, b]) AND 0x3f) #
      alphabet ! unat (push_bit 2 (base64_buffer [a, b]) AND 0x3f) # CHR ''='' # rest)
     decodeMap padding 0 =
     Inr (push_bit 8 (take_bit 16 (base64_buffer [a, b])), 18)"
    by (simp only: base64_chunk_2)
  have nb: "\<not> decodeBase64_bad_padding (push_bit 8 (take_bit 16 (base64_buffer [a, b]))) 18"
    by (simp only: decodeBase64_bad_padding_18 base64_bytes_2 not_not simp_thms)
  have "decodeBase64_bytes (push_bit 8 (take_bit 16 (base64_buffer [a, b]))) 18 = [a, b]"
    by (simp only: decodeBase64_bytes_18 base64_bytes_2)
  with decodeBase64_window_of_chars [OF c nb] show ?thesis
    by (simp only:)
qed

lemma decodeBase64_window_2_end:
  assumes "alphabet_ok alphabet decodeMap" "length alphabet = 64"
  shows "decodeBase64_window
     [alphabet ! unat (signed_drop_bit 10 (base64_buffer [a, b]) AND 0x3f),
      alphabet ! unat (signed_drop_bit 4 (base64_buffer [a, b]) AND 0x3f),
      alphabet ! unat (push_bit 2 (base64_buffer [a, b]) AND 0x3f)]
     decodeMap Ignore 0
     = Inr [a, b]"
proof -
  have "decodeBase64_chars
     [alphabet ! unat (signed_drop_bit 10 (base64_buffer [a, b]) AND 0x3f),
      alphabet ! unat (signed_drop_bit 4 (base64_buffer [a, b]) AND 0x3f),
      alphabet ! unat (push_bit 2 (base64_buffer [a, b]) AND 0x3f)]
     decodeMap Ignore 0 =
     Inr (push_bit 18 (signed_drop_bit 10 (base64_buffer [a, b]) AND 0x3f) OR push_bit 12 (signed_drop_bit 4 (base64_buffer [a, b]) AND 0x3f) OR push_bit 6 (push_bit 2 (base64_buffer [a, b]) AND 0x3f), 18)"
    by (rule decodeBase64_chars_3_end [OF assms(1)]) (simp_all add: assms(2) unat_and_mask6)
  then have c: "decodeBase64_chars
     [alphabet ! unat (signed_drop_bit 10 (base64_buffer [a, b]) AND 0x3f),
      alphabet ! unat (signed_drop_bit 4 (base64_buffer [a, b]) AND 0x3f),
      alphabet ! unat (push_bit 2 (base64_buffer [a, b]) AND 0x3f)]
     decodeMap Ignore 0 =
     Inr (push_bit 8 (take_bit 16 (base64_buffer [a, b])), 18)"
    by (simp only: base64_chunk_2)
  have nb: "\<not> decodeBase64_bad_padding (push_bit 8 (take_bit 16 (base64_buffer [a, b]))) 18"
    by (simp only: decodeBase64_bad_padding_18 base64_bytes_2 not_not simp_thms)
  have "decodeBase64_bytes (push_bit 8 (take_bit 16 (base64_buffer [a, b]))) 18 = [a, b]"
    by (simp only: decodeBase64_bytes_18 base64_bytes_2)
  with decodeBase64_window_of_chars [OF c nb] show ?thesis
    by (simp only:)
qed

lemma decodeBase64_window_1_pad:
  assumes "alphabet_ok alphabet decodeMap" "length alphabet = 64"
  shows "decodeBase64_window
     (alphabet ! unat (signed_drop_bit 2 (base64_buffer [a]) AND 0x3f) #
      alphabet ! unat (push_bit 4 (base64_buffer [a]) AND 0x3f) # CHR ''='' # CHR ''='' # rest)
     decodeMap padding 0
     = Inr [a]"
proof -
  have "decodeBase64_chars
     (alphabet ! unat (signed_drop_bit 2 (base64_buffer [a]) AND 0x3f) #
      alphabet ! unat (push_bit 4 (base64_buffer [a]) AND 0x3f) # CHR ''='' # CHR ''='' # rest)
     decodeMap padding 0 =
     Inr (push_bit 18 (signed_drop_bit 2 (base64_buffer [a]) AND 0x3f) OR push_bit 12 (push_bit 4 (base64_buffer [a]) AND 0x3f), 12)"
    by (rule decodeBase64_chars_2_pad [OF assms(1)]) (simp_all add: assms(2) unat_and_mask6)
  then have c: "decodeBase64_chars
     (alphabet ! unat (signed_drop_bit 2 (base64_buffer [a]) AND 0x3f) #
      alphabet ! unat (push_bit 4 (base64_buffer [a]) AND 0x3f) # CHR ''='' # CHR ''='' # rest)
     decodeMap padding 0 =
     Inr (push_bit 16 (take_bit 8 (base64_buffer [a])), 12)"
    by (simp only: base64_chunk_1)
  have nb: "\<not> decodeBase64_bad_padding (push_bit 16 (take_bit 8 (base64_buffer [a]))) 12"
    by (simp only: decodeBase64_bad_padding_12 base64_bytes_1 not_not simp_thms)
  have "decodeBase64_bytes (push_bit 16 (take_bit 8 (base64_buffer [a]))) 12 = [a]"
    by (simp only: decodeBase64_bytes_12 base64_bytes_1)
  with decodeBase64_window_of_chars [OF c nb] show ?thesis
    by (simp only:)
qed

lemma decodeBase64_window_1_end:
  assumes "alphabet_ok alphabet decodeMap" "length alphabet = 64"
  shows "decodeBase64_window
     [alphabet ! unat (signed_drop_bit 2 (base64_buffer [a]) AND 0x3f),
      alphabet ! unat (push_bit 4 (base64_buffer [a]) AND 0x3f)]
     decodeMap Ignore 0
     = Inr [a]"
proof -
  have "decodeBase64_chars
     [alphabet ! unat (signed_drop_bit 2 (base64_buffer [a]) AND 0x3f),
      alphabet ! unat (push_bit 4 (base64_buffer [a]) AND 0x3f)]
     decodeMap Ignore 0 =
     Inr (push_bit 18 (signed_drop_bit 2 (base64_buffer [a]) AND 0x3f) OR push_bit 12 (push_bit 4 (base64_buffer [a]) AND 0x3f), 12)"
    by (rule decodeBase64_chars_2_end [OF assms(1)]) (simp_all add: assms(2) unat_and_mask6)
  then have c: "decodeBase64_chars
     [alphabet ! unat (signed_drop_bit 2 (base64_buffer [a]) AND 0x3f),
      alphabet ! unat (push_bit 4 (base64_buffer [a]) AND 0x3f)]
     decodeMap Ignore 0 =
     Inr (push_bit 16 (take_bit 8 (base64_buffer [a])), 12)"
    by (simp only: base64_chunk_1)
  have nb: "\<not> decodeBase64_bad_padding (push_bit 16 (take_bit 8 (base64_buffer [a]))) 12"
    by (simp only: decodeBase64_bad_padding_12 base64_bytes_1 not_not simp_thms)
  have "decodeBase64_bytes (push_bit 16 (take_bit 8 (base64_buffer [a]))) 12 = [a]"
    by (simp only: decodeBase64_bytes_12 base64_bytes_1)
  with decodeBase64_window_of_chars [OF c nb] show ?thesis
    by (simp only:)
qed

lemma base64_roundtrip_padded:
  assumes "alphabet_ok alphabet decodeMap" "length alphabet = 64"
  shows "decodeBase64_internal (encodeBase64_internal bytes alphabet Include) decodeMap padding
    = Inr bytes"
  unfolding decodeBase64_internal_windows
proof (induction bytes rule: chunk3_induct)
  case Nil
  show ?case by (simp add: encodeBase64_internal_Nil decodeBase64_windows_Nil)
next
  case (One a)
  show ?case
    by (simp add: encodeBase64_internal_1 [OF assms(2)] decodeBase64_windows_4
        decodeBase64_window_1_pad [OF assms] decodeBase64_windows_Nil)
next
  case (Two a b)
  show ?case
    by (simp add: encodeBase64_internal_2 [OF assms(2)] decodeBase64_windows_4
        decodeBase64_window_2_pad [OF assms] decodeBase64_windows_Nil)
next
  case (Three a b c rest)
  then show ?case
    by (simp add: encodeBase64_internal_3 [OF assms(2)] decodeBase64_windows_4
        decodeBase64_window_3 [OF assms])
qed

lemma base64_roundtrip_unpadded:
  assumes "alphabet_ok alphabet decodeMap" "length alphabet = 64"
  shows "decodeBase64_internal (encodeBase64_internal bytes alphabet NoPadding) decodeMap Ignore
    = Inr bytes"
  unfolding decodeBase64_internal_windows
proof (induction bytes rule: chunk3_induct)
  case Nil
  show ?case by (simp add: encodeBase64_internal_Nil decodeBase64_windows_Nil)
next
  case (One a)
  show ?case
    by (simp add: encodeBase64_internal_1 [OF assms(2)] decodeBase64_windows_short
        decodeBase64_window_1_end [OF assms])
next
  case (Two a b)
  show ?case
    by (simp add: encodeBase64_internal_2 [OF assms(2)] decodeBase64_windows_short
        decodeBase64_window_2_end [OF assms])
next
  case (Three a b c rest)
  then show ?case
    by (simp add: encodeBase64_internal_3 [OF assms(2)] decodeBase64_windows_4
        decodeBase64_window_3 [OF assms])
qed

lemma base64_alphabet_ok: "alphabet_ok base64Alphabet base64DecodeMap"
proof -
  have "list_all (\<lambda>k. base64DecodeMap (base64Alphabet ! k) = Some k \<and> base64Alphabet ! k \<noteq> CHR ''='') [0..<64]"
    by code_simp
  then show ?thesis
    by (simp add: alphabet_ok_def list_all_iff base64Alphabet_def)
qed

lemma base64url_alphabet_ok: "alphabet_ok base64urlAlphabet base64urlDecodeMap"
proof -
  have "list_all (\<lambda>k. base64urlDecodeMap (base64urlAlphabet ! k) = Some k \<and> base64urlAlphabet ! k \<noteq> CHR ''='') [0..<64]"
    by code_simp
  then show ?thesis
    by (simp add: alphabet_ok_def list_all_iff base64urlAlphabet_def)
qed

subsection \<open>Base32: the encoder chunk by chunk, the decoder window by window\<close>

lemma encodeBase32_align_buffer:
  "encodeBase32_align (base32_buffer [a, b, c, d, e], 40) =
     (base32_aligned [a, b, c, d, e], 40)"
  "encodeBase32_align (base32_buffer [a, b, c, d], 32) = (base32_aligned [a, b, c, d], 35)"
  "encodeBase32_align (base32_buffer [a, b, c], 24) = (base32_aligned [a, b, c], 25)"
  "encodeBase32_align (base32_buffer [a, b], 16) = (base32_aligned [a, b], 20)"
  "encodeBase32_align (base32_buffer [a], 8) = (base32_aligned [a], 10)"
  by (simp_all add: base32_aligned_def encodeBase32_align_def)

lemma encodeBase32_read_drop:
  "encodeBase32_read bytes i j buffer bufferBitSize =
   encodeBase32_read (drop i bytes) 0 j buffer bufferBitSize"
proof (induction bytes i j buffer bufferBitSize rule: encodeBase32_read.induct)
  case (1 bytes i j buffer bufferBitSize)
  show ?case
  proof (cases "j < 5 \<and> i + j < length bytes")
    case True
    then show ?thesis
      using 1 [OF True]
      by (subst encodeBase32_read.simps, subst (2) encodeBase32_read.simps)
        (auto simp add: add.commute)
  next
    case False
    then show ?thesis
      by (subst encodeBase32_read.simps, subst (2) encodeBase32_read.simps) auto
  qed
qed

lemma encodeBase32_read_shift:
  "encodeBase32_read bytes (i + k) j buffer n = encodeBase32_read (drop k bytes) i j buffer n"
  using encodeBase32_read_drop [of bytes "i + k" j buffer n]
    encodeBase32_read_drop [of "drop k bytes" i j buffer n]
  by (simp add: add.commute)

lemmas encodeBase32_read_unroll =
  encodeBase32_read.simps [of _ _ 0] encodeBase32_read.simps [of _ _ "Suc 0"]
  encodeBase32_read.simps [of _ _ "Suc (Suc 0)"]
  encodeBase32_read.simps [of _ _ "Suc (Suc (Suc 0))"]
  encodeBase32_read.simps [of _ _ "Suc (Suc (Suc (Suc 0)))"]
  encodeBase32_read.simps [of _ _ "Suc (Suc (Suc (Suc (Suc 0))))"]

lemma encodeBase32_read_5:
  "encodeBase32_read (a # b # c # d # e # rest) 0 0 0 0 = (base32_buffer [a, b, c, d, e], 40)"
  by (simp add: encodeBase32_read_unroll base32_buffer_def)

lemma encodeBase32_read_4:
  "encodeBase32_read [a, b, c, d] 0 0 0 0 = (base32_buffer [a, b, c, d], 32)"
  by (simp add: encodeBase32_read_unroll base32_buffer_def)

lemma encodeBase32_read_3:
  "encodeBase32_read [a, b, c] 0 0 0 0 = (base32_buffer [a, b, c], 24)"
  by (simp add: encodeBase32_read_unroll base32_buffer_def)

lemma encodeBase32_read_2:
  "encodeBase32_read [a, b] 0 0 0 0 = (base32_buffer [a, b], 16)"
  by (simp add: encodeBase32_read_unroll base32_buffer_def)

lemma encodeBase32_read_1:
  "encodeBase32_read [a] 0 0 0 0 = (base32_buffer [a], 8)"
  by (simp add: encodeBase32_read_unroll base32_buffer_def)

lemma encodeBase32_emit_append:
  "fold (encodeBase32_emit alphabet padding buffer) js (result, n) =
     (result @ fst (fold (encodeBase32_emit alphabet padding buffer) js ([], n)),
      snd (fold (encodeBase32_emit alphabet padding buffer) js ([], n)))"
proof (induction js arbitrary: result n)
  case Nil
  show ?case by simp
next
  case (Cons j js)
  obtain r' n' where step: "encodeBase32_emit alphabet padding buffer j ([], n) = (r', n')"
    by (cases "encodeBase32_emit alphabet padding buffer j ([], n)")
  then have step': "encodeBase32_emit alphabet padding buffer j (result, n) = (result @ r', n')"
    by (auto simp: encodeBase32_emit_def split: if_splits)
  show ?case
    by (simp add: step step' Cons.IH [of "result @ r'"] Cons.IH [of r'])
qed

lemma encodeBase32_loop_acc:
  "encodeBase32_loop bytes alphabet padding i result =
     result @ encodeBase32_loop bytes alphabet padding i []"
proof (induction "length bytes - i" arbitrary: i result rule: less_induct)
  case less
  show ?case
  proof (cases "i < length bytes")
    case False
    then show ?thesis by (simp add: encodeBase32_loop.simps)
  next
    case True
    obtain buffer n where rd:
      "encodeBase32_align (encodeBase32_read bytes i 0 0 0) = (buffer, n)"
      by (cases "encodeBase32_align (encodeBase32_read bytes i 0 0 0)")
    define t where "t = fst (fold (encodeBase32_emit alphabet padding buffer) [0..<8] ([], n))"
    have lt: "length bytes - (i + 5) < length bytes - i"
      using True by simp
    have "encodeBase32_loop bytes alphabet padding i result =
            encodeBase32_loop bytes alphabet padding (i + 5) (result @ t)"
      using True
      by (subst encodeBase32_loop.simps)
        (simp add: rd encodeBase32_emit_append [of _ _ _ _ result] t_def)
    also have "\<dots> = (result @ t) @ encodeBase32_loop bytes alphabet padding (i + 5) []"
      by (rule less [OF lt])
    also have "\<dots> = result @ encodeBase32_loop bytes alphabet padding (i + 5) t"
      using less [OF lt, of t] by simp
    also have "encodeBase32_loop bytes alphabet padding (i + 5) t =
            encodeBase32_loop bytes alphabet padding i []"
      using True
      by (subst (2) encodeBase32_loop.simps) (simp add: rd t_def)
    finally show ?thesis .
  qed
qed

lemma encodeBase32_loop_shift:
  "encodeBase32_loop bytes alphabet padding (i + k) result =
     encodeBase32_loop (drop k bytes) alphabet padding i result"
proof (induction "length bytes - (i + k)" arbitrary: i result rule: less_induct)
  case less
  show ?case
  proof (cases "i + k < length bytes")
    case False
    then show ?thesis by (simp add: encodeBase32_loop.simps)
  next
    case True
    have lt: "length bytes - (i + 5 + k) < length bytes - (i + k)"
      using True by simp
    have ik: "i < length (drop k bytes)"
      using True by simp
    obtain buffer n where rd:
      "encodeBase32_align (encodeBase32_read (drop k bytes) i 0 0 0) = (buffer, n)"
      by (cases "encodeBase32_align (encodeBase32_read (drop k bytes) i 0 0 0)")
    have "encodeBase32_loop bytes alphabet padding (i + k) result =
            encodeBase32_loop bytes alphabet padding (i + 5 + k)
              (fst (fold (encodeBase32_emit alphabet padding buffer) [0..<8] (result, n)))"
      using True
      by (subst encodeBase32_loop.simps) (simp add: encodeBase32_read_shift rd ac_simps)
    also have "\<dots> = encodeBase32_loop (drop k bytes) alphabet padding (i + 5)
              (fst (fold (encodeBase32_emit alphabet padding buffer) [0..<8] (result, n)))"
      by (rule less [OF lt])
    also have "\<dots> = encodeBase32_loop (drop k bytes) alphabet padding i result"
      using ik by (subst (2) encodeBase32_loop.simps) (simp add: rd)
    finally show ?thesis .
  qed
qed

lemma encodeBase32_internal_Nil: "encodeBase32_internal [] alphabet padding = []"
  by (simp add: encodeBase32_internal_def encodeBase32_loop.simps)

lemma encodeBase32_internal_step:
  assumes "bytes \<noteq> []"
  shows "encodeBase32_internal bytes alphabet padding =
     (case encodeBase32_align (encodeBase32_read bytes 0 0 0 0) of (buffer, n) \<Rightarrow>
        fst (fold (encodeBase32_emit alphabet padding buffer) [0..<8] ([], n)))
     @ encodeBase32_internal (drop 5 bytes) alphabet padding"
proof -
  obtain buffer n where rd: "encodeBase32_align (encodeBase32_read bytes 0 0 0 0) = (buffer, n)"
    by (cases "encodeBase32_align (encodeBase32_read bytes 0 0 0 0)")
  show ?thesis
    unfolding encodeBase32_internal_def
    using assms encodeBase32_loop_shift [of bytes alphabet padding 0 5 "[]"]
    by (subst encodeBase32_loop.simps, subst encodeBase32_loop_acc) (simp add: rd)
qed

lemma alphabet_at_mask5:
  "length alphabet = 32 \<Longrightarrow>
     alphabet_at alphabet (x AND 0x1f) = [alphabet ! nat (x AND 0x1f)]"
proof -
  assume len: "length alphabet = 32"
  have "x AND 31 \<le> 31" by (rule AND_upper2) simp
  then have "nat (x AND 31) < 32" by linarith
  moreover have "0 \<le> x AND 31" by simp
  ultimately show ?thesis by (simp add: alphabet_at_def len)
qed

lemma encodeBase32_internal_5:
  assumes "length alphabet = 32"
  shows "encodeBase32_internal (a # b # c # d # e # rest) alphabet padding =
     map (\<lambda>k. alphabet ! base32_index (base32_aligned [a, b, c, d, e]) k)
       [35, 30, 25, 20, 15, 10, 5, 0]
     @ encodeBase32_internal rest alphabet padding"
  by (simp add: encodeBase32_internal_step encodeBase32_internal_Nil encodeBase32_read_5
      encodeBase32_align_buffer upt8
      encodeBase32_emit_def alphabet_at_mask5 [OF assms] base32_index_def)

lemma encodeBase32_internal_4:
  assumes "length alphabet = 32"
  shows "encodeBase32_internal [a, b, c, d] alphabet padding =
     map (\<lambda>k. alphabet ! base32_index (base32_aligned [a, b, c, d]) k)
       [30, 25, 20, 15, 10, 5, 0]
     @ (if padding = Include then ''='' else [])"
  by (simp add: encodeBase32_internal_step encodeBase32_internal_Nil encodeBase32_read_4
      encodeBase32_align_buffer upt8
      encodeBase32_emit_def alphabet_at_mask5 [OF assms] base32_index_def)

lemma encodeBase32_internal_3:
  assumes "length alphabet = 32"
  shows "encodeBase32_internal [a, b, c] alphabet padding =
     map (\<lambda>k. alphabet ! base32_index (base32_aligned [a, b, c]) k)
       [20, 15, 10, 5, 0]
     @ (if padding = Include then ''==='' else [])"
  by (simp add: encodeBase32_internal_step encodeBase32_internal_Nil encodeBase32_read_3
      encodeBase32_align_buffer upt8
      encodeBase32_emit_def alphabet_at_mask5 [OF assms] base32_index_def)

lemma encodeBase32_internal_2:
  assumes "length alphabet = 32"
  shows "encodeBase32_internal [a, b] alphabet padding =
     map (\<lambda>k. alphabet ! base32_index (base32_aligned [a, b]) k)
       [15, 10, 5, 0]
     @ (if padding = Include then ''===='' else [])"
  by (simp add: encodeBase32_internal_step encodeBase32_internal_Nil encodeBase32_read_2
      encodeBase32_align_buffer upt8
      encodeBase32_emit_def alphabet_at_mask5 [OF assms] base32_index_def)

lemma encodeBase32_internal_1:
  assumes "length alphabet = 32"
  shows "encodeBase32_internal [a] alphabet padding =
     map (\<lambda>k. alphabet ! base32_index (base32_aligned [a]) k)
       [5, 0]
     @ (if padding = Include then ''======'' else [])"
  by (simp add: encodeBase32_internal_step encodeBase32_internal_Nil encodeBase32_read_1
      encodeBase32_align_buffer upt8
      encodeBase32_emit_def alphabet_at_mask5 [OF assms] base32_index_def)

lemma decodeBase32_chars_bits:
  assumes "decodeBase32_chars encoded decodeMap padding i = Inr (chunk, bitsRead)"
  shows "bitsRead \<le> 40"
proof -
  have "snd (chunk, bitsRead) \<le> snd (0 :: int, 0 :: nat) + 5 * length [0..<8]"
    by (rule for_loop_bits [OF assms [unfolded decodeBase32_chars_def]])
      (auto simp: decodeBase32_char_def split: if_splits option.splits)
  then show ?thesis by simp
qed

lemma decodeBase32_store_fold:
  "fold (decodeBase32_store chunk) ks (result, totalBytes) = (result', totalBytes') \<Longrightarrow>
     totalBytes' = totalBytes + length ks \<and> length result' = length result \<and>
     (totalBytes + length ks \<le> length result \<longrightarrow>
        take totalBytes' result' =
          take totalBytes result @
            map (\<lambda>k. word_of_int (drop_bit (32 - k * 8) chunk AND 0xff)) ks)"
proof (induction ks arbitrary: result totalBytes)
  case Nil
  then show ?case by simp
next
  case (Cons k ks)
  let ?v = "word_of_int (drop_bit (32 - k * 8) chunk AND 0xff) :: byte"
  have "decodeBase32_store chunk k (result, totalBytes) =
      (result[totalBytes := ?v], totalBytes + 1)"
    by (simp add: decodeBase32_store_def)
  with Cons.prems have
    "fold (decodeBase32_store chunk) ks (result[totalBytes := ?v], totalBytes + 1)
       = (result', totalBytes')"
    by simp
  from Cons.IH [OF this] show ?case
    by (auto simp: take_Suc_conv_app_nth)
qed

lemma decodeBase32_loop_windows:
  assumes "totalBytes + 5 * ((length encoded - i + 7) div 8) \<le> length result"
  shows "(case decodeBase32_loop encoded decodeMap padding i result totalBytes of
            Inl e \<Rightarrow> Inl e | Inr (r, t) \<Rightarrow> Inr (take t r))
       = (case decodeBase32_windows encoded decodeMap padding i of
            Inl e \<Rightarrow> Inl e | Inr bytes \<Rightarrow> Inr (take totalBytes result @ bytes))"
  using assms
proof (induction "length encoded - i" arbitrary: i result totalBytes rule: less_induct)
  case less
  show ?case
  proof (cases "i < length encoded")
    case False
    then show ?thesis
      by (simp add: decodeBase32_loop.simps decodeBase32_windows.simps)
  next
    case True
    show ?thesis
    proof (cases "decodeBase32_chars encoded decodeMap padding i")
      case (Inl e)
      then show ?thesis
        using True
        by (simp add: decodeBase32_loop.simps decodeBase32_windows.simps decodeBase32_window_def)
    next
      case (Inr s)
      obtain chunk bitsRead where s: "s = (chunk, bitsRead)" by (cases s)
      have bits: "bitsRead \<le> 40"
        using Inr decodeBase32_chars_bits unfolding s by blast
      show ?thesis
      proof (cases "decodeBase32_bad_padding chunk bitsRead")
        case bad: True
        then show ?thesis
          using True Inr s
          by (simp add: decodeBase32_loop.simps decodeBase32_windows.simps
              decodeBase32_window_def)
      next
        case good: False
        obtain r' t' where st:
          "fold (decodeBase32_store chunk) [0..<bitsRead div 8] (result, totalBytes) = (r', t')"
          by (cases "fold (decodeBase32_store chunk) [0..<bitsRead div 8] (result, totalBytes)")
        have cap: "totalBytes + bitsRead div 8 + 5 * ((length encoded - (i + 8) + 7) div 8)
                     \<le> length result"
        proof -
          have "bitsRead div 8 \<le> 5"
            using bits by simp
          moreover have
            "1 + (length encoded - (i + 8) + 7) div 8 \<le> (length encoded - i + 7) div 8"
            using window_count_step [of i "length encoded" 8] True by simp
          ultimately show ?thesis
            using less.prems by linarith
        qed
        from decodeBase32_store_fold [OF st] cap
        have t': "t' = totalBytes + bitsRead div 8" and len: "length r' = length result"
          and tk: "take t' r' = take totalBytes result @ decodeBase32_bytes chunk bitsRead"
          by (auto simp add: decodeBase32_bytes_def)
        have lt: "length encoded - (i + 8) < length encoded - i"
          using True by simp
        have cap': "t' + 5 * ((length encoded - (i + 8) + 7) div 8) \<le> length r'"
          using cap by (simp add: t' len)
        show ?thesis
          using True Inr s good st less.hyps [OF lt cap'] tk
          by (subst decodeBase32_loop.simps, subst decodeBase32_windows.simps)
            (simp add: decodeBase32_window_def split: sum.splits)
      qed
    qed
  qed
qed

lemma decodeBase32_internal_windows:
  "decodeBase32_internal encoded decodeMap padding =
     decodeBase32_windows encoded decodeMap padding 0"
proof -
  have "0 + 5 * ((length encoded - 0 + 7) div 8)
          \<le> length (replicate ((length encoded + 7) div 8 * 5) (0 :: byte))"
    by simp
  from decodeBase32_loop_windows [OF this, of decodeMap padding]
  show ?thesis
    by (simp add: decodeBase32_internal_def split: sum.splits)
qed

lemma decodeBase32_char_shift:
  "decodeBase32_char (t @ rest) decodeMap padding (length t + i) =
     decodeBase32_char rest decodeMap padding i"
proof (intro ext)
  fix j s
  have a: "str_at (t @ rest) (length t + i + j) = str_at rest (i + j)"
    using str_at_append_right [of t rest "i + j"] by (simp add: add.assoc)
  have b: "(0 < j \<and> str_at (t @ rest) (length t + i + j - 1) = Some CHR ''='') =
      (0 < j \<and> str_at rest (i + j - 1) = Some CHR ''='')"
    using str_at_append_right [of t rest "i + j - 1"] by (cases j) (simp_all add: add.assoc)
  have c: "(length (t @ rest) \<le> length t + i + j) = (length rest \<le> i + j)"
    by simp
  show "decodeBase32_char (t @ rest) decodeMap padding (length t + i) j s =
     decodeBase32_char rest decodeMap padding i j s"
    unfolding decodeBase32_char_def a b c ..
qed

lemma decodeBase32_windows_shift:
  "decodeBase32_windows (t @ rest) decodeMap padding (length t + i) =
     decodeBase32_windows rest decodeMap padding i"
proof (induction "length rest - i" arbitrary: i rule: less_induct)
  case less
  have w: "decodeBase32_window (t @ rest) decodeMap padding (length t + i) =
        decodeBase32_window rest decodeMap padding i"
    by (simp add: decodeBase32_window_def decodeBase32_chars_def decodeBase32_char_shift)
  show ?case
  proof (cases "i < length rest")
    case False
    then show ?thesis by (simp add: decodeBase32_windows.simps)
  next
    case True
    then have lt: "length rest - (i + 8) < length rest - i" by simp
    have IH: "decodeBase32_windows (t @ rest) decodeMap padding (length t + i + 8) =
        decodeBase32_windows rest decodeMap padding (i + 8)"
      using less [OF lt] by (simp add: add.assoc)
    show ?thesis
      using True
      by (subst decodeBase32_windows.simps, subst (2) decodeBase32_windows.simps)
        (simp add: w IH cong: sum.case_cong)
  qed
qed

lemma decodeBase32_windows_Nil: "decodeBase32_windows [] decodeMap padding 0 = Inr []"
  by (simp add: decodeBase32_windows.simps)

lemma decodeBase32_windows_8:
  "decodeBase32_windows (c0 # c1 # c2 # c3 # c4 # c5 # c6 # c7 # rest) decodeMap padding 0 =
     (case decodeBase32_window (c0 # c1 # c2 # c3 # c4 # c5 # c6 # c7 # rest)
             decodeMap padding 0 of
        Inl e \<Rightarrow> Inl e
      | Inr bytes \<Rightarrow>
          (case decodeBase32_windows rest decodeMap padding 0 of
             Inl e \<Rightarrow> Inl e | Inr more \<Rightarrow> Inr (bytes @ more)))"
proof -
  have "decodeBase32_windows ([c0, c1, c2, c3, c4, c5, c6, c7] @ rest) decodeMap padding
          (length [c0, c1, c2, c3, c4, c5, c6, c7] + 0) =
        decodeBase32_windows rest decodeMap padding 0"
    by (rule decodeBase32_windows_shift)
  then have "decodeBase32_windows (c0 # c1 # c2 # c3 # c4 # c5 # c6 # c7 # rest)
        decodeMap padding 8 = decodeBase32_windows rest decodeMap padding 0"
    by (simp add: eval_nat_numeral)
  then show ?thesis
    by (subst decodeBase32_windows.simps) (simp cong: sum.case_cong)
qed

lemma decodeBase32_windows_short:
  "0 < length encoded \<Longrightarrow> length encoded \<le> 8 \<Longrightarrow>
   decodeBase32_windows encoded decodeMap padding 0 =
     decodeBase32_window encoded decodeMap padding 0"
  by (subst decodeBase32_windows.simps, subst decodeBase32_windows.simps)
    (simp split: sum.splits)

lemmas decodeBase32_chars_simps =
  decodeBase32_chars_def upt8 decodeBase32_char_def str_at_def

lemma decodeBase32_chars_8_pad:
  assumes "alphabet_ok alphabet decodeMap"
    and "v0 < length alphabet" "v1 < length alphabet" "v2 < length alphabet" "v3 < length alphabet" "v4 < length alphabet" "v5 < length alphabet" "v6 < length alphabet" "v7 < length alphabet"
  shows "decodeBase32_chars
     (alphabet ! v0 # alphabet ! v1 # alphabet ! v2 # alphabet ! v3 # alphabet ! v4 # alphabet ! v5 # alphabet ! v6 # alphabet ! v7 # rest)
     decodeMap padding 0 =
     Inr (push_bit 35 (int v0) OR push_bit 30 (int v1) OR push_bit 25 (int v2) OR push_bit 20 (int v3) OR push_bit 15 (int v4) OR push_bit 10 (int v5) OR push_bit 5 (int v6) OR int v7, 40)"
  using assms(2-) by (cases padding)
    (simp_all add: decodeBase32_chars_simps alphabet_ok_nth_nat [OF assms(1)] or.assoc)

lemma decodeBase32_chars_7_pad:
  assumes "alphabet_ok alphabet decodeMap"
    and "v0 < length alphabet" "v1 < length alphabet" "v2 < length alphabet" "v3 < length alphabet" "v4 < length alphabet" "v5 < length alphabet" "v6 < length alphabet"
  shows "decodeBase32_chars
     (alphabet ! v0 # alphabet ! v1 # alphabet ! v2 # alphabet ! v3 # alphabet ! v4 # alphabet ! v5 # alphabet ! v6 # CHR ''='' # rest)
     decodeMap padding 0 =
     Inr (push_bit 35 (int v0) OR push_bit 30 (int v1) OR push_bit 25 (int v2) OR push_bit 20 (int v3) OR push_bit 15 (int v4) OR push_bit 10 (int v5) OR push_bit 5 (int v6), 35)"
  using assms(2-) by (cases padding)
    (simp_all add: decodeBase32_chars_simps alphabet_ok_nth_nat [OF assms(1)] or.assoc)

lemma decodeBase32_chars_7_end:
  assumes "alphabet_ok alphabet decodeMap"
    and "v0 < length alphabet" "v1 < length alphabet" "v2 < length alphabet" "v3 < length alphabet" "v4 < length alphabet" "v5 < length alphabet" "v6 < length alphabet"
  shows "decodeBase32_chars
     [alphabet ! v0, alphabet ! v1, alphabet ! v2, alphabet ! v3, alphabet ! v4, alphabet ! v5, alphabet ! v6]
     decodeMap Ignore 0 =
     Inr (push_bit 35 (int v0) OR push_bit 30 (int v1) OR push_bit 25 (int v2) OR push_bit 20 (int v3) OR push_bit 15 (int v4) OR push_bit 10 (int v5) OR push_bit 5 (int v6), 35)"
  using assms(2-) by (simp add: decodeBase32_chars_simps alphabet_ok_nth_nat [OF assms(1)] or.assoc)

lemma decodeBase32_chars_5_pad:
  assumes "alphabet_ok alphabet decodeMap"
    and "v0 < length alphabet" "v1 < length alphabet" "v2 < length alphabet" "v3 < length alphabet" "v4 < length alphabet"
  shows "decodeBase32_chars
     (alphabet ! v0 # alphabet ! v1 # alphabet ! v2 # alphabet ! v3 # alphabet ! v4 # CHR ''='' # CHR ''='' # CHR ''='' # rest)
     decodeMap padding 0 =
     Inr (push_bit 35 (int v0) OR push_bit 30 (int v1) OR push_bit 25 (int v2) OR push_bit 20 (int v3) OR push_bit 15 (int v4), 25)"
  using assms(2-) by (cases padding)
    (simp_all add: decodeBase32_chars_simps alphabet_ok_nth_nat [OF assms(1)] or.assoc)

lemma decodeBase32_chars_5_end:
  assumes "alphabet_ok alphabet decodeMap"
    and "v0 < length alphabet" "v1 < length alphabet" "v2 < length alphabet" "v3 < length alphabet" "v4 < length alphabet"
  shows "decodeBase32_chars
     [alphabet ! v0, alphabet ! v1, alphabet ! v2, alphabet ! v3, alphabet ! v4]
     decodeMap Ignore 0 =
     Inr (push_bit 35 (int v0) OR push_bit 30 (int v1) OR push_bit 25 (int v2) OR push_bit 20 (int v3) OR push_bit 15 (int v4), 25)"
  using assms(2-) by (simp add: decodeBase32_chars_simps alphabet_ok_nth_nat [OF assms(1)] or.assoc)

lemma decodeBase32_chars_4_pad:
  assumes "alphabet_ok alphabet decodeMap"
    and "v0 < length alphabet" "v1 < length alphabet" "v2 < length alphabet" "v3 < length alphabet"
  shows "decodeBase32_chars
     (alphabet ! v0 # alphabet ! v1 # alphabet ! v2 # alphabet ! v3 # CHR ''='' # CHR ''='' # CHR ''='' # CHR ''='' # rest)
     decodeMap padding 0 =
     Inr (push_bit 35 (int v0) OR push_bit 30 (int v1) OR push_bit 25 (int v2) OR push_bit 20 (int v3), 20)"
  using assms(2-) by (cases padding)
    (simp_all add: decodeBase32_chars_simps alphabet_ok_nth_nat [OF assms(1)] or.assoc)

lemma decodeBase32_chars_4_end:
  assumes "alphabet_ok alphabet decodeMap"
    and "v0 < length alphabet" "v1 < length alphabet" "v2 < length alphabet" "v3 < length alphabet"
  shows "decodeBase32_chars
     [alphabet ! v0, alphabet ! v1, alphabet ! v2, alphabet ! v3]
     decodeMap Ignore 0 =
     Inr (push_bit 35 (int v0) OR push_bit 30 (int v1) OR push_bit 25 (int v2) OR push_bit 20 (int v3), 20)"
  using assms(2-) by (simp add: decodeBase32_chars_simps alphabet_ok_nth_nat [OF assms(1)] or.assoc)

lemma decodeBase32_chars_2_pad:
  assumes "alphabet_ok alphabet decodeMap"
    and "v0 < length alphabet" "v1 < length alphabet"
  shows "decodeBase32_chars
     (alphabet ! v0 # alphabet ! v1 # CHR ''='' # CHR ''='' # CHR ''='' # CHR ''='' # CHR ''='' # CHR ''='' # rest)
     decodeMap padding 0 =
     Inr (push_bit 35 (int v0) OR push_bit 30 (int v1), 10)"
  using assms(2-) by (cases padding)
    (simp_all add: decodeBase32_chars_simps alphabet_ok_nth_nat [OF assms(1)] or.assoc)

lemma decodeBase32_chars_2_end:
  assumes "alphabet_ok alphabet decodeMap"
    and "v0 < length alphabet" "v1 < length alphabet"
  shows "decodeBase32_chars
     [alphabet ! v0, alphabet ! v1]
     decodeMap Ignore 0 =
     Inr (push_bit 35 (int v0) OR push_bit 30 (int v1), 10)"
  using assms(2-) by (simp add: decodeBase32_chars_simps alphabet_ok_nth_nat [OF assms(1)] or.assoc)

lemma int_base32_index: "int (base32_index A k) = take_bit 5 (drop_bit k A)"
  by (simp add: base32_index_def take_bit_eq_mask m5i)

lemma base32_index_less: "base32_index A k < 32"
proof -
  have "drop_bit k A AND 31 \<le> 31" by (rule AND_upper2) simp
  then show ?thesis unfolding base32_index_def by linarith
qed

lemma base32_chunk_8:
  "push_bit 35 (int (base32_index A 35)) OR push_bit 30 (int (base32_index A 30)) OR push_bit 25 (int (base32_index A 25)) OR push_bit 20 (int (base32_index A 20)) OR push_bit 15 (int (base32_index A 15)) OR push_bit 10 (int (base32_index A 10)) OR push_bit 5 (int (base32_index A 5)) OR int (base32_index A 0)
   = take_bit 40 A"
  unfolding int_base32_index
proof (rule bit_eqI)
  fix n
  show "bit (push_bit 35 (take_bit 5 (drop_bit 35 A)) OR push_bit 30 (take_bit 5 (drop_bit 30 A)) OR push_bit 25 (take_bit 5 (drop_bit 25 A)) OR push_bit 20 (take_bit 5 (drop_bit 20 A)) OR push_bit 15 (take_bit 5 (drop_bit 15 A)) OR push_bit 10 (take_bit 5 (drop_bit 10 A)) OR push_bit 5 (take_bit 5 (drop_bit 5 A)) OR take_bit 5 (drop_bit 0 A)) n
    = bit (take_bit 40 A) n"
    by (rule quintet_cases [of _ n]) (auto simp add: bit_simps)
qed

lemma base32_chunk_7:
  "push_bit 35 (int (base32_index A 30)) OR push_bit 30 (int (base32_index A 25)) OR push_bit 25 (int (base32_index A 20)) OR push_bit 20 (int (base32_index A 15)) OR push_bit 15 (int (base32_index A 10)) OR push_bit 10 (int (base32_index A 5)) OR push_bit 5 (int (base32_index A 0))
   = push_bit 5 (take_bit 35 A)"
  unfolding int_base32_index
proof (rule bit_eqI)
  fix n
  show "bit (push_bit 35 (take_bit 5 (drop_bit 30 A)) OR push_bit 30 (take_bit 5 (drop_bit 25 A)) OR push_bit 25 (take_bit 5 (drop_bit 20 A)) OR push_bit 20 (take_bit 5 (drop_bit 15 A)) OR push_bit 15 (take_bit 5 (drop_bit 10 A)) OR push_bit 10 (take_bit 5 (drop_bit 5 A)) OR push_bit 5 (take_bit 5 (drop_bit 0 A))) n
    = bit (push_bit 5 (take_bit 35 A)) n"
    by (rule quintet_cases [of _ n]) (auto simp add: bit_simps)
qed

lemma base32_chunk_5:
  "push_bit 35 (int (base32_index A 20)) OR push_bit 30 (int (base32_index A 15)) OR push_bit 25 (int (base32_index A 10)) OR push_bit 20 (int (base32_index A 5)) OR push_bit 15 (int (base32_index A 0))
   = push_bit 15 (take_bit 25 A)"
  unfolding int_base32_index
proof (rule bit_eqI)
  fix n
  show "bit (push_bit 35 (take_bit 5 (drop_bit 20 A)) OR push_bit 30 (take_bit 5 (drop_bit 15 A)) OR push_bit 25 (take_bit 5 (drop_bit 10 A)) OR push_bit 20 (take_bit 5 (drop_bit 5 A)) OR push_bit 15 (take_bit 5 (drop_bit 0 A))) n
    = bit (push_bit 15 (take_bit 25 A)) n"
    by (rule quintet_cases [of _ n]) (auto simp add: bit_simps)
qed

lemma base32_chunk_4:
  "push_bit 35 (int (base32_index A 15)) OR push_bit 30 (int (base32_index A 10)) OR push_bit 25 (int (base32_index A 5)) OR push_bit 20 (int (base32_index A 0))
   = push_bit 20 (take_bit 20 A)"
  unfolding int_base32_index
proof (rule bit_eqI)
  fix n
  show "bit (push_bit 35 (take_bit 5 (drop_bit 15 A)) OR push_bit 30 (take_bit 5 (drop_bit 10 A)) OR push_bit 25 (take_bit 5 (drop_bit 5 A)) OR push_bit 20 (take_bit 5 (drop_bit 0 A))) n
    = bit (push_bit 20 (take_bit 20 A)) n"
    by (rule quintet_cases [of _ n]) (auto simp add: bit_simps)
qed

lemma base32_chunk_2:
  "push_bit 35 (int (base32_index A 5)) OR push_bit 30 (int (base32_index A 0))
   = push_bit 30 (take_bit 10 A)"
  unfolding int_base32_index
proof (rule bit_eqI)
  fix n
  show "bit (push_bit 35 (take_bit 5 (drop_bit 5 A)) OR push_bit 30 (take_bit 5 (drop_bit 0 A))) n
    = bit (push_bit 30 (take_bit 10 A)) n"
    by (rule quintet_cases [of _ n]) (auto simp add: bit_simps)
qed

lemma base32_bytes_5:
  shows 
"(word_of_int (drop_bit 32 (take_bit 40 (base32_aligned [a, b, c, d, e])) AND 0xff) :: byte) = a"    and "(word_of_int (drop_bit 24 (take_bit 40 (base32_aligned [a, b, c, d, e])) AND 0xff) :: byte) = b"    and "(word_of_int (drop_bit 16 (take_bit 40 (base32_aligned [a, b, c, d, e])) AND 0xff) :: byte) = c"    and "(word_of_int (drop_bit 8 (take_bit 40 (base32_aligned [a, b, c, d, e])) AND 0xff) :: byte) = d"    and "(word_of_int ((take_bit 40 (base32_aligned [a, b, c, d, e])) AND 0xff) :: byte) = e"
  unfolding base32_aligned_def encodeBase32_align_def base32_buffer_def m8i 
  by (rule bit_word_eqI bit_eqI; simp add: bit_simps del: push_bit_Suc;
      auto dest: bit_imp_le_length)+

lemma base32_bytes_4:
  shows 
"(word_of_int (drop_bit 32 (push_bit 5 (take_bit 35 (base32_aligned [a, b, c, d]))) AND 0xff) :: byte) = a"    and "(word_of_int (drop_bit 24 (push_bit 5 (take_bit 35 (base32_aligned [a, b, c, d]))) AND 0xff) :: byte) = b"    and "(word_of_int (drop_bit 16 (push_bit 5 (take_bit 35 (base32_aligned [a, b, c, d]))) AND 0xff) :: byte) = c"    and "(word_of_int (drop_bit 8 (push_bit 5 (take_bit 35 (base32_aligned [a, b, c, d]))) AND 0xff) :: byte) = d"    and "push_bit 5 (take_bit 35 (base32_aligned [a, b, c, d])) AND 0xff = 0"
  unfolding base32_aligned_def encodeBase32_align_def base32_buffer_def m8i m8i
  by (rule bit_word_eqI bit_eqI; simp add: bit_simps del: push_bit_Suc;
      auto dest: bit_imp_le_length)+

lemma base32_bytes_3:
  shows 
"(word_of_int (drop_bit 32 (push_bit 15 (take_bit 25 (base32_aligned [a, b, c]))) AND 0xff) :: byte) = a"    and "(word_of_int (drop_bit 24 (push_bit 15 (take_bit 25 (base32_aligned [a, b, c]))) AND 0xff) :: byte) = b"    and "(word_of_int (drop_bit 16 (push_bit 15 (take_bit 25 (base32_aligned [a, b, c]))) AND 0xff) :: byte) = c"    and "push_bit 15 (take_bit 25 (base32_aligned [a, b, c])) AND 0xffff = 0"
  unfolding base32_aligned_def encodeBase32_align_def base32_buffer_def m8i m16i
  by (rule bit_word_eqI bit_eqI; simp add: bit_simps del: push_bit_Suc;
      auto dest: bit_imp_le_length)+

lemma base32_bytes_2:
  shows 
"(word_of_int (drop_bit 32 (push_bit 20 (take_bit 20 (base32_aligned [a, b]))) AND 0xff) :: byte) = a"    and "(word_of_int (drop_bit 24 (push_bit 20 (take_bit 20 (base32_aligned [a, b]))) AND 0xff) :: byte) = b"    and "push_bit 20 (take_bit 20 (base32_aligned [a, b])) AND 0xffffff = 0"
  unfolding base32_aligned_def encodeBase32_align_def base32_buffer_def m8i m24i
  by (rule bit_word_eqI bit_eqI; simp add: bit_simps del: push_bit_Suc;
      auto dest: bit_imp_le_length)+

lemma base32_bytes_1:
  shows 
"(word_of_int (drop_bit 32 (push_bit 30 (take_bit 10 (base32_aligned [a]))) AND 0xff) :: byte) = a"    and "push_bit 30 (take_bit 10 (base32_aligned [a])) AND 0xffffffff = 0"
  unfolding base32_aligned_def encodeBase32_align_def base32_buffer_def m8i m32i
  by (rule bit_word_eqI bit_eqI; simp add: bit_simps del: push_bit_Suc;
      auto dest: bit_imp_le_length)+

lemma decodeBase32_bytes_40:
  "decodeBase32_bytes chunk 40 =
     [word_of_int (drop_bit 32 chunk AND 0xff),
      word_of_int (drop_bit 24 chunk AND 0xff),
      word_of_int (drop_bit 16 chunk AND 0xff),
      word_of_int (drop_bit 8 chunk AND 0xff),
      word_of_int (chunk AND 0xff)]"
  by (simp add: decodeBase32_bytes_def upt_rec)

lemma decodeBase32_bad_padding_40:
  "decodeBase32_bad_padding chunk 40 = False"
  by (simp add: decodeBase32_bad_padding_def)

lemma decodeBase32_bytes_35:
  "decodeBase32_bytes chunk 35 =
     [word_of_int (drop_bit 32 chunk AND 0xff),
      word_of_int (drop_bit 24 chunk AND 0xff),
      word_of_int (drop_bit 16 chunk AND 0xff),
      word_of_int (drop_bit 8 chunk AND 0xff)]"
  by (simp add: decodeBase32_bytes_def upt_rec)

lemma decodeBase32_bad_padding_35:
  "decodeBase32_bad_padding chunk 35 = (chunk AND 0xff \<noteq> 0)"
  by (simp add: decodeBase32_bad_padding_def)

lemma decodeBase32_bytes_25:
  "decodeBase32_bytes chunk 25 =
     [word_of_int (drop_bit 32 chunk AND 0xff),
      word_of_int (drop_bit 24 chunk AND 0xff),
      word_of_int (drop_bit 16 chunk AND 0xff)]"
  by (simp add: decodeBase32_bytes_def upt_rec)

lemma decodeBase32_bad_padding_25:
  "decodeBase32_bad_padding chunk 25 = (chunk AND 0xffff \<noteq> 0)"
  by (simp add: decodeBase32_bad_padding_def)

lemma decodeBase32_bytes_20:
  "decodeBase32_bytes chunk 20 =
     [word_of_int (drop_bit 32 chunk AND 0xff),
      word_of_int (drop_bit 24 chunk AND 0xff)]"
  by (simp add: decodeBase32_bytes_def upt_rec)

lemma decodeBase32_bad_padding_20:
  "decodeBase32_bad_padding chunk 20 = (chunk AND 0xffffff \<noteq> 0)"
  by (simp add: decodeBase32_bad_padding_def)

lemma decodeBase32_bytes_10:
  "decodeBase32_bytes chunk 10 =
     [word_of_int (drop_bit 32 chunk AND 0xff)]"
  by (simp add: decodeBase32_bytes_def upt_rec)

lemma decodeBase32_bad_padding_10:
  "decodeBase32_bad_padding chunk 10 = (chunk AND 0xffffffff \<noteq> 0)"
  by (simp add: decodeBase32_bad_padding_def)

lemma decodeBase32_window_of_chars:
  "decodeBase32_chars encoded decodeMap padding i = Inr (chunk, bitsRead) \<Longrightarrow>
   \<not> decodeBase32_bad_padding chunk bitsRead \<Longrightarrow>
   decodeBase32_window encoded decodeMap padding i = Inr (decodeBase32_bytes chunk bitsRead)"
  by (simp add: decodeBase32_window_def)

lemma decodeBase32_window_5_pad:
  assumes "alphabet_ok alphabet decodeMap" "length alphabet = 32"
  shows "decodeBase32_window
     (alphabet ! base32_index (base32_aligned [a, b, c, d, e]) 35 #
      alphabet ! base32_index (base32_aligned [a, b, c, d, e]) 30 #
      alphabet ! base32_index (base32_aligned [a, b, c, d, e]) 25 #
      alphabet ! base32_index (base32_aligned [a, b, c, d, e]) 20 #
      alphabet ! base32_index (base32_aligned [a, b, c, d, e]) 15 #
      alphabet ! base32_index (base32_aligned [a, b, c, d, e]) 10 #
      alphabet ! base32_index (base32_aligned [a, b, c, d, e]) 5 #
      alphabet ! base32_index (base32_aligned [a, b, c, d, e]) 0 #
      rest)
     decodeMap padding 0 = Inr [a, b, c, d, e]"
proof -
  have "decodeBase32_chars
     (alphabet ! base32_index (base32_aligned [a, b, c, d, e]) 35 #
      alphabet ! base32_index (base32_aligned [a, b, c, d, e]) 30 #
      alphabet ! base32_index (base32_aligned [a, b, c, d, e]) 25 #
      alphabet ! base32_index (base32_aligned [a, b, c, d, e]) 20 #
      alphabet ! base32_index (base32_aligned [a, b, c, d, e]) 15 #
      alphabet ! base32_index (base32_aligned [a, b, c, d, e]) 10 #
      alphabet ! base32_index (base32_aligned [a, b, c, d, e]) 5 #
      alphabet ! base32_index (base32_aligned [a, b, c, d, e]) 0 #
      rest)
     decodeMap padding 0 =
     Inr (push_bit 35 (int (base32_index (base32_aligned [a, b, c, d, e]) 35)) OR push_bit 30 (int (base32_index (base32_aligned [a, b, c, d, e]) 30)) OR push_bit 25 (int (base32_index (base32_aligned [a, b, c, d, e]) 25)) OR push_bit 20 (int (base32_index (base32_aligned [a, b, c, d, e]) 20)) OR push_bit 15 (int (base32_index (base32_aligned [a, b, c, d, e]) 15)) OR push_bit 10 (int (base32_index (base32_aligned [a, b, c, d, e]) 10)) OR push_bit 5 (int (base32_index (base32_aligned [a, b, c, d, e]) 5)) OR int (base32_index (base32_aligned [a, b, c, d, e]) 0), 40)"
    by (rule decodeBase32_chars_8_pad [OF assms(1)]) (simp_all add: base32_index_less assms(2))
  then have c: "decodeBase32_chars
     (alphabet ! base32_index (base32_aligned [a, b, c, d, e]) 35 #
      alphabet ! base32_index (base32_aligned [a, b, c, d, e]) 30 #
      alphabet ! base32_index (base32_aligned [a, b, c, d, e]) 25 #
      alphabet ! base32_index (base32_aligned [a, b, c, d, e]) 20 #
      alphabet ! base32_index (base32_aligned [a, b, c, d, e]) 15 #
      alphabet ! base32_index (base32_aligned [a, b, c, d, e]) 10 #
      alphabet ! base32_index (base32_aligned [a, b, c, d, e]) 5 #
      alphabet ! base32_index (base32_aligned [a, b, c, d, e]) 0 #
      rest)
     decodeMap padding 0 =
     Inr (take_bit 40 (base32_aligned [a, b, c, d, e]), 40)"
    by (simp only: base32_chunk_8)
  have nb: "\<not> decodeBase32_bad_padding (take_bit 40 (base32_aligned [a, b, c, d, e])) 40"
    by (simp only: decodeBase32_bad_padding_40 base32_bytes_5 not_not simp_thms)
  have "decodeBase32_bytes (take_bit 40 (base32_aligned [a, b, c, d, e])) 40 = [a, b, c, d, e]"
    by (simp only: decodeBase32_bytes_40 base32_bytes_5)
  with decodeBase32_window_of_chars [OF c nb] show ?thesis
    by (simp only:)
qed

lemma decodeBase32_window_4_pad:
  assumes "alphabet_ok alphabet decodeMap" "length alphabet = 32"
  shows "decodeBase32_window
     (alphabet ! base32_index (base32_aligned [a, b, c, d]) 30 #
      alphabet ! base32_index (base32_aligned [a, b, c, d]) 25 #
      alphabet ! base32_index (base32_aligned [a, b, c, d]) 20 #
      alphabet ! base32_index (base32_aligned [a, b, c, d]) 15 #
      alphabet ! base32_index (base32_aligned [a, b, c, d]) 10 #
      alphabet ! base32_index (base32_aligned [a, b, c, d]) 5 #
      alphabet ! base32_index (base32_aligned [a, b, c, d]) 0 #
      CHR ''='' #
      rest)
     decodeMap padding 0 = Inr [a, b, c, d]"
proof -
  have "decodeBase32_chars
     (alphabet ! base32_index (base32_aligned [a, b, c, d]) 30 #
      alphabet ! base32_index (base32_aligned [a, b, c, d]) 25 #
      alphabet ! base32_index (base32_aligned [a, b, c, d]) 20 #
      alphabet ! base32_index (base32_aligned [a, b, c, d]) 15 #
      alphabet ! base32_index (base32_aligned [a, b, c, d]) 10 #
      alphabet ! base32_index (base32_aligned [a, b, c, d]) 5 #
      alphabet ! base32_index (base32_aligned [a, b, c, d]) 0 #
      CHR ''='' #
      rest)
     decodeMap padding 0 =
     Inr (push_bit 35 (int (base32_index (base32_aligned [a, b, c, d]) 30)) OR push_bit 30 (int (base32_index (base32_aligned [a, b, c, d]) 25)) OR push_bit 25 (int (base32_index (base32_aligned [a, b, c, d]) 20)) OR push_bit 20 (int (base32_index (base32_aligned [a, b, c, d]) 15)) OR push_bit 15 (int (base32_index (base32_aligned [a, b, c, d]) 10)) OR push_bit 10 (int (base32_index (base32_aligned [a, b, c, d]) 5)) OR push_bit 5 (int (base32_index (base32_aligned [a, b, c, d]) 0)), 35)"
    by (rule decodeBase32_chars_7_pad [OF assms(1)]) (simp_all add: base32_index_less assms(2))
  then have c: "decodeBase32_chars
     (alphabet ! base32_index (base32_aligned [a, b, c, d]) 30 #
      alphabet ! base32_index (base32_aligned [a, b, c, d]) 25 #
      alphabet ! base32_index (base32_aligned [a, b, c, d]) 20 #
      alphabet ! base32_index (base32_aligned [a, b, c, d]) 15 #
      alphabet ! base32_index (base32_aligned [a, b, c, d]) 10 #
      alphabet ! base32_index (base32_aligned [a, b, c, d]) 5 #
      alphabet ! base32_index (base32_aligned [a, b, c, d]) 0 #
      CHR ''='' #
      rest)
     decodeMap padding 0 =
     Inr (push_bit 5 (take_bit 35 (base32_aligned [a, b, c, d])), 35)"
    by (simp only: base32_chunk_7)
  have nb: "\<not> decodeBase32_bad_padding (push_bit 5 (take_bit 35 (base32_aligned [a, b, c, d]))) 35"
    by (simp only: decodeBase32_bad_padding_35 base32_bytes_4 not_not simp_thms)
  have "decodeBase32_bytes (push_bit 5 (take_bit 35 (base32_aligned [a, b, c, d]))) 35 = [a, b, c, d]"
    by (simp only: decodeBase32_bytes_35 base32_bytes_4)
  with decodeBase32_window_of_chars [OF c nb] show ?thesis
    by (simp only:)
qed

lemma decodeBase32_window_4_end:
  assumes "alphabet_ok alphabet decodeMap" "length alphabet = 32"
  shows "decodeBase32_window
     [alphabet ! base32_index (base32_aligned [a, b, c, d]) 30,
      alphabet ! base32_index (base32_aligned [a, b, c, d]) 25,
      alphabet ! base32_index (base32_aligned [a, b, c, d]) 20,
      alphabet ! base32_index (base32_aligned [a, b, c, d]) 15,
      alphabet ! base32_index (base32_aligned [a, b, c, d]) 10,
      alphabet ! base32_index (base32_aligned [a, b, c, d]) 5,
      alphabet ! base32_index (base32_aligned [a, b, c, d]) 0]
     decodeMap Ignore 0 = Inr [a, b, c, d]"
proof -
  have "decodeBase32_chars
     [alphabet ! base32_index (base32_aligned [a, b, c, d]) 30,
      alphabet ! base32_index (base32_aligned [a, b, c, d]) 25,
      alphabet ! base32_index (base32_aligned [a, b, c, d]) 20,
      alphabet ! base32_index (base32_aligned [a, b, c, d]) 15,
      alphabet ! base32_index (base32_aligned [a, b, c, d]) 10,
      alphabet ! base32_index (base32_aligned [a, b, c, d]) 5,
      alphabet ! base32_index (base32_aligned [a, b, c, d]) 0]
     decodeMap Ignore 0 =
     Inr (push_bit 35 (int (base32_index (base32_aligned [a, b, c, d]) 30)) OR push_bit 30 (int (base32_index (base32_aligned [a, b, c, d]) 25)) OR push_bit 25 (int (base32_index (base32_aligned [a, b, c, d]) 20)) OR push_bit 20 (int (base32_index (base32_aligned [a, b, c, d]) 15)) OR push_bit 15 (int (base32_index (base32_aligned [a, b, c, d]) 10)) OR push_bit 10 (int (base32_index (base32_aligned [a, b, c, d]) 5)) OR push_bit 5 (int (base32_index (base32_aligned [a, b, c, d]) 0)), 35)"
    by (rule decodeBase32_chars_7_end [OF assms(1)]) (simp_all add: base32_index_less assms(2))
  then have c: "decodeBase32_chars
     [alphabet ! base32_index (base32_aligned [a, b, c, d]) 30,
      alphabet ! base32_index (base32_aligned [a, b, c, d]) 25,
      alphabet ! base32_index (base32_aligned [a, b, c, d]) 20,
      alphabet ! base32_index (base32_aligned [a, b, c, d]) 15,
      alphabet ! base32_index (base32_aligned [a, b, c, d]) 10,
      alphabet ! base32_index (base32_aligned [a, b, c, d]) 5,
      alphabet ! base32_index (base32_aligned [a, b, c, d]) 0]
     decodeMap Ignore 0 =
     Inr (push_bit 5 (take_bit 35 (base32_aligned [a, b, c, d])), 35)"
    by (simp only: base32_chunk_7)
  have nb: "\<not> decodeBase32_bad_padding (push_bit 5 (take_bit 35 (base32_aligned [a, b, c, d]))) 35"
    by (simp only: decodeBase32_bad_padding_35 base32_bytes_4 not_not simp_thms)
  have "decodeBase32_bytes (push_bit 5 (take_bit 35 (base32_aligned [a, b, c, d]))) 35 = [a, b, c, d]"
    by (simp only: decodeBase32_bytes_35 base32_bytes_4)
  with decodeBase32_window_of_chars [OF c nb] show ?thesis
    by (simp only:)
qed

lemma decodeBase32_window_3_pad:
  assumes "alphabet_ok alphabet decodeMap" "length alphabet = 32"
  shows "decodeBase32_window
     (alphabet ! base32_index (base32_aligned [a, b, c]) 20 #
      alphabet ! base32_index (base32_aligned [a, b, c]) 15 #
      alphabet ! base32_index (base32_aligned [a, b, c]) 10 #
      alphabet ! base32_index (base32_aligned [a, b, c]) 5 #
      alphabet ! base32_index (base32_aligned [a, b, c]) 0 #
      CHR ''='' #
      CHR ''='' #
      CHR ''='' #
      rest)
     decodeMap padding 0 = Inr [a, b, c]"
proof -
  have "decodeBase32_chars
     (alphabet ! base32_index (base32_aligned [a, b, c]) 20 #
      alphabet ! base32_index (base32_aligned [a, b, c]) 15 #
      alphabet ! base32_index (base32_aligned [a, b, c]) 10 #
      alphabet ! base32_index (base32_aligned [a, b, c]) 5 #
      alphabet ! base32_index (base32_aligned [a, b, c]) 0 #
      CHR ''='' #
      CHR ''='' #
      CHR ''='' #
      rest)
     decodeMap padding 0 =
     Inr (push_bit 35 (int (base32_index (base32_aligned [a, b, c]) 20)) OR push_bit 30 (int (base32_index (base32_aligned [a, b, c]) 15)) OR push_bit 25 (int (base32_index (base32_aligned [a, b, c]) 10)) OR push_bit 20 (int (base32_index (base32_aligned [a, b, c]) 5)) OR push_bit 15 (int (base32_index (base32_aligned [a, b, c]) 0)), 25)"
    by (rule decodeBase32_chars_5_pad [OF assms(1)]) (simp_all add: base32_index_less assms(2))
  then have c: "decodeBase32_chars
     (alphabet ! base32_index (base32_aligned [a, b, c]) 20 #
      alphabet ! base32_index (base32_aligned [a, b, c]) 15 #
      alphabet ! base32_index (base32_aligned [a, b, c]) 10 #
      alphabet ! base32_index (base32_aligned [a, b, c]) 5 #
      alphabet ! base32_index (base32_aligned [a, b, c]) 0 #
      CHR ''='' #
      CHR ''='' #
      CHR ''='' #
      rest)
     decodeMap padding 0 =
     Inr (push_bit 15 (take_bit 25 (base32_aligned [a, b, c])), 25)"
    by (simp only: base32_chunk_5)
  have nb: "\<not> decodeBase32_bad_padding (push_bit 15 (take_bit 25 (base32_aligned [a, b, c]))) 25"
    by (simp only: decodeBase32_bad_padding_25 base32_bytes_3 not_not simp_thms)
  have "decodeBase32_bytes (push_bit 15 (take_bit 25 (base32_aligned [a, b, c]))) 25 = [a, b, c]"
    by (simp only: decodeBase32_bytes_25 base32_bytes_3)
  with decodeBase32_window_of_chars [OF c nb] show ?thesis
    by (simp only:)
qed

lemma decodeBase32_window_3_end:
  assumes "alphabet_ok alphabet decodeMap" "length alphabet = 32"
  shows "decodeBase32_window
     [alphabet ! base32_index (base32_aligned [a, b, c]) 20,
      alphabet ! base32_index (base32_aligned [a, b, c]) 15,
      alphabet ! base32_index (base32_aligned [a, b, c]) 10,
      alphabet ! base32_index (base32_aligned [a, b, c]) 5,
      alphabet ! base32_index (base32_aligned [a, b, c]) 0]
     decodeMap Ignore 0 = Inr [a, b, c]"
proof -
  have "decodeBase32_chars
     [alphabet ! base32_index (base32_aligned [a, b, c]) 20,
      alphabet ! base32_index (base32_aligned [a, b, c]) 15,
      alphabet ! base32_index (base32_aligned [a, b, c]) 10,
      alphabet ! base32_index (base32_aligned [a, b, c]) 5,
      alphabet ! base32_index (base32_aligned [a, b, c]) 0]
     decodeMap Ignore 0 =
     Inr (push_bit 35 (int (base32_index (base32_aligned [a, b, c]) 20)) OR push_bit 30 (int (base32_index (base32_aligned [a, b, c]) 15)) OR push_bit 25 (int (base32_index (base32_aligned [a, b, c]) 10)) OR push_bit 20 (int (base32_index (base32_aligned [a, b, c]) 5)) OR push_bit 15 (int (base32_index (base32_aligned [a, b, c]) 0)), 25)"
    by (rule decodeBase32_chars_5_end [OF assms(1)]) (simp_all add: base32_index_less assms(2))
  then have c: "decodeBase32_chars
     [alphabet ! base32_index (base32_aligned [a, b, c]) 20,
      alphabet ! base32_index (base32_aligned [a, b, c]) 15,
      alphabet ! base32_index (base32_aligned [a, b, c]) 10,
      alphabet ! base32_index (base32_aligned [a, b, c]) 5,
      alphabet ! base32_index (base32_aligned [a, b, c]) 0]
     decodeMap Ignore 0 =
     Inr (push_bit 15 (take_bit 25 (base32_aligned [a, b, c])), 25)"
    by (simp only: base32_chunk_5)
  have nb: "\<not> decodeBase32_bad_padding (push_bit 15 (take_bit 25 (base32_aligned [a, b, c]))) 25"
    by (simp only: decodeBase32_bad_padding_25 base32_bytes_3 not_not simp_thms)
  have "decodeBase32_bytes (push_bit 15 (take_bit 25 (base32_aligned [a, b, c]))) 25 = [a, b, c]"
    by (simp only: decodeBase32_bytes_25 base32_bytes_3)
  with decodeBase32_window_of_chars [OF c nb] show ?thesis
    by (simp only:)
qed

lemma decodeBase32_window_2_pad:
  assumes "alphabet_ok alphabet decodeMap" "length alphabet = 32"
  shows "decodeBase32_window
     (alphabet ! base32_index (base32_aligned [a, b]) 15 #
      alphabet ! base32_index (base32_aligned [a, b]) 10 #
      alphabet ! base32_index (base32_aligned [a, b]) 5 #
      alphabet ! base32_index (base32_aligned [a, b]) 0 #
      CHR ''='' #
      CHR ''='' #
      CHR ''='' #
      CHR ''='' #
      rest)
     decodeMap padding 0 = Inr [a, b]"
proof -
  have "decodeBase32_chars
     (alphabet ! base32_index (base32_aligned [a, b]) 15 #
      alphabet ! base32_index (base32_aligned [a, b]) 10 #
      alphabet ! base32_index (base32_aligned [a, b]) 5 #
      alphabet ! base32_index (base32_aligned [a, b]) 0 #
      CHR ''='' #
      CHR ''='' #
      CHR ''='' #
      CHR ''='' #
      rest)
     decodeMap padding 0 =
     Inr (push_bit 35 (int (base32_index (base32_aligned [a, b]) 15)) OR push_bit 30 (int (base32_index (base32_aligned [a, b]) 10)) OR push_bit 25 (int (base32_index (base32_aligned [a, b]) 5)) OR push_bit 20 (int (base32_index (base32_aligned [a, b]) 0)), 20)"
    by (rule decodeBase32_chars_4_pad [OF assms(1)]) (simp_all add: base32_index_less assms(2))
  then have c: "decodeBase32_chars
     (alphabet ! base32_index (base32_aligned [a, b]) 15 #
      alphabet ! base32_index (base32_aligned [a, b]) 10 #
      alphabet ! base32_index (base32_aligned [a, b]) 5 #
      alphabet ! base32_index (base32_aligned [a, b]) 0 #
      CHR ''='' #
      CHR ''='' #
      CHR ''='' #
      CHR ''='' #
      rest)
     decodeMap padding 0 =
     Inr (push_bit 20 (take_bit 20 (base32_aligned [a, b])), 20)"
    by (simp only: base32_chunk_4)
  have nb: "\<not> decodeBase32_bad_padding (push_bit 20 (take_bit 20 (base32_aligned [a, b]))) 20"
    by (simp only: decodeBase32_bad_padding_20 base32_bytes_2 not_not simp_thms)
  have "decodeBase32_bytes (push_bit 20 (take_bit 20 (base32_aligned [a, b]))) 20 = [a, b]"
    by (simp only: decodeBase32_bytes_20 base32_bytes_2)
  with decodeBase32_window_of_chars [OF c nb] show ?thesis
    by (simp only:)
qed

lemma decodeBase32_window_2_end:
  assumes "alphabet_ok alphabet decodeMap" "length alphabet = 32"
  shows "decodeBase32_window
     [alphabet ! base32_index (base32_aligned [a, b]) 15,
      alphabet ! base32_index (base32_aligned [a, b]) 10,
      alphabet ! base32_index (base32_aligned [a, b]) 5,
      alphabet ! base32_index (base32_aligned [a, b]) 0]
     decodeMap Ignore 0 = Inr [a, b]"
proof -
  have "decodeBase32_chars
     [alphabet ! base32_index (base32_aligned [a, b]) 15,
      alphabet ! base32_index (base32_aligned [a, b]) 10,
      alphabet ! base32_index (base32_aligned [a, b]) 5,
      alphabet ! base32_index (base32_aligned [a, b]) 0]
     decodeMap Ignore 0 =
     Inr (push_bit 35 (int (base32_index (base32_aligned [a, b]) 15)) OR push_bit 30 (int (base32_index (base32_aligned [a, b]) 10)) OR push_bit 25 (int (base32_index (base32_aligned [a, b]) 5)) OR push_bit 20 (int (base32_index (base32_aligned [a, b]) 0)), 20)"
    by (rule decodeBase32_chars_4_end [OF assms(1)]) (simp_all add: base32_index_less assms(2))
  then have c: "decodeBase32_chars
     [alphabet ! base32_index (base32_aligned [a, b]) 15,
      alphabet ! base32_index (base32_aligned [a, b]) 10,
      alphabet ! base32_index (base32_aligned [a, b]) 5,
      alphabet ! base32_index (base32_aligned [a, b]) 0]
     decodeMap Ignore 0 =
     Inr (push_bit 20 (take_bit 20 (base32_aligned [a, b])), 20)"
    by (simp only: base32_chunk_4)
  have nb: "\<not> decodeBase32_bad_padding (push_bit 20 (take_bit 20 (base32_aligned [a, b]))) 20"
    by (simp only: decodeBase32_bad_padding_20 base32_bytes_2 not_not simp_thms)
  have "decodeBase32_bytes (push_bit 20 (take_bit 20 (base32_aligned [a, b]))) 20 = [a, b]"
    by (simp only: decodeBase32_bytes_20 base32_bytes_2)
  with decodeBase32_window_of_chars [OF c nb] show ?thesis
    by (simp only:)
qed

lemma decodeBase32_window_1_pad:
  assumes "alphabet_ok alphabet decodeMap" "length alphabet = 32"
  shows "decodeBase32_window
     (alphabet ! base32_index (base32_aligned [a]) 5 #
      alphabet ! base32_index (base32_aligned [a]) 0 #
      CHR ''='' #
      CHR ''='' #
      CHR ''='' #
      CHR ''='' #
      CHR ''='' #
      CHR ''='' #
      rest)
     decodeMap padding 0 = Inr [a]"
proof -
  have "decodeBase32_chars
     (alphabet ! base32_index (base32_aligned [a]) 5 #
      alphabet ! base32_index (base32_aligned [a]) 0 #
      CHR ''='' #
      CHR ''='' #
      CHR ''='' #
      CHR ''='' #
      CHR ''='' #
      CHR ''='' #
      rest)
     decodeMap padding 0 =
     Inr (push_bit 35 (int (base32_index (base32_aligned [a]) 5)) OR push_bit 30 (int (base32_index (base32_aligned [a]) 0)), 10)"
    by (rule decodeBase32_chars_2_pad [OF assms(1)]) (simp_all add: base32_index_less assms(2))
  then have c: "decodeBase32_chars
     (alphabet ! base32_index (base32_aligned [a]) 5 #
      alphabet ! base32_index (base32_aligned [a]) 0 #
      CHR ''='' #
      CHR ''='' #
      CHR ''='' #
      CHR ''='' #
      CHR ''='' #
      CHR ''='' #
      rest)
     decodeMap padding 0 =
     Inr (push_bit 30 (take_bit 10 (base32_aligned [a])), 10)"
    by (simp only: base32_chunk_2)
  have nb: "\<not> decodeBase32_bad_padding (push_bit 30 (take_bit 10 (base32_aligned [a]))) 10"
    by (simp only: decodeBase32_bad_padding_10 base32_bytes_1 not_not simp_thms)
  have "decodeBase32_bytes (push_bit 30 (take_bit 10 (base32_aligned [a]))) 10 = [a]"
    by (simp only: decodeBase32_bytes_10 base32_bytes_1)
  with decodeBase32_window_of_chars [OF c nb] show ?thesis
    by (simp only:)
qed

lemma decodeBase32_window_1_end:
  assumes "alphabet_ok alphabet decodeMap" "length alphabet = 32"
  shows "decodeBase32_window
     [alphabet ! base32_index (base32_aligned [a]) 5,
      alphabet ! base32_index (base32_aligned [a]) 0]
     decodeMap Ignore 0 = Inr [a]"
proof -
  have "decodeBase32_chars
     [alphabet ! base32_index (base32_aligned [a]) 5,
      alphabet ! base32_index (base32_aligned [a]) 0]
     decodeMap Ignore 0 =
     Inr (push_bit 35 (int (base32_index (base32_aligned [a]) 5)) OR push_bit 30 (int (base32_index (base32_aligned [a]) 0)), 10)"
    by (rule decodeBase32_chars_2_end [OF assms(1)]) (simp_all add: base32_index_less assms(2))
  then have c: "decodeBase32_chars
     [alphabet ! base32_index (base32_aligned [a]) 5,
      alphabet ! base32_index (base32_aligned [a]) 0]
     decodeMap Ignore 0 =
     Inr (push_bit 30 (take_bit 10 (base32_aligned [a])), 10)"
    by (simp only: base32_chunk_2)
  have nb: "\<not> decodeBase32_bad_padding (push_bit 30 (take_bit 10 (base32_aligned [a]))) 10"
    by (simp only: decodeBase32_bad_padding_10 base32_bytes_1 not_not simp_thms)
  have "decodeBase32_bytes (push_bit 30 (take_bit 10 (base32_aligned [a]))) 10 = [a]"
    by (simp only: decodeBase32_bytes_10 base32_bytes_1)
  with decodeBase32_window_of_chars [OF c nb] show ?thesis
    by (simp only:)
qed

lemma base32_roundtrip_padded:
  assumes "alphabet_ok alphabet decodeMap" "length alphabet = 32"
  shows "decodeBase32_internal (encodeBase32_internal bytes alphabet Include) decodeMap padding
    = Inr bytes"
  unfolding decodeBase32_internal_windows
proof (induction bytes rule: chunk5_induct)
  case Nil
  show ?case by (simp add: encodeBase32_internal_Nil decodeBase32_windows_Nil)
next
  case (One a)
  show ?case
    by (simp add: encodeBase32_internal_1 [OF assms(2)] decodeBase32_windows_8
        decodeBase32_window_1_pad [OF assms] decodeBase32_windows_Nil)
next
  case (Two a b)
  show ?case
    by (simp add: encodeBase32_internal_2 [OF assms(2)] decodeBase32_windows_8
        decodeBase32_window_2_pad [OF assms] decodeBase32_windows_Nil)
next
  case (Three a b c)
  show ?case
    by (simp add: encodeBase32_internal_3 [OF assms(2)] decodeBase32_windows_8
        decodeBase32_window_3_pad [OF assms] decodeBase32_windows_Nil)
next
  case (Four a b c d)
  show ?case
    by (simp add: encodeBase32_internal_4 [OF assms(2)] decodeBase32_windows_8
        decodeBase32_window_4_pad [OF assms] decodeBase32_windows_Nil)
next
  case (Five a b c d e rest)
  then show ?case
    by (simp add: encodeBase32_internal_5 [OF assms(2)] decodeBase32_windows_8
        decodeBase32_window_5_pad [OF assms])
qed

lemma base32_roundtrip_unpadded:
  assumes "alphabet_ok alphabet decodeMap" "length alphabet = 32"
  shows "decodeBase32_internal (encodeBase32_internal bytes alphabet NoPadding) decodeMap Ignore
    = Inr bytes"
  unfolding decodeBase32_internal_windows
proof (induction bytes rule: chunk5_induct)
  case Nil
  show ?case by (simp add: encodeBase32_internal_Nil decodeBase32_windows_Nil)
next
  case (One a)
  show ?case
    by (simp add: encodeBase32_internal_1 [OF assms(2)] decodeBase32_windows_short
        decodeBase32_window_1_end [OF assms])
next
  case (Two a b)
  show ?case
    by (simp add: encodeBase32_internal_2 [OF assms(2)] decodeBase32_windows_short
        decodeBase32_window_2_end [OF assms])
next
  case (Three a b c)
  show ?case
    by (simp add: encodeBase32_internal_3 [OF assms(2)] decodeBase32_windows_short
        decodeBase32_window_3_end [OF assms])
next
  case (Four a b c d)
  show ?case
    by (simp add: encodeBase32_internal_4 [OF assms(2)] decodeBase32_windows_short
        decodeBase32_window_4_end [OF assms])
next
  case (Five a b c d e rest)
  then show ?case
    by (simp add: encodeBase32_internal_5 [OF assms(2)] decodeBase32_windows_8
        decodeBase32_window_5_pad [OF assms])
qed

lemma base32_upper_alphabet_ok: "alphabet_ok base32UpperCaseAlphabet base32DecodeMap"
proof -
  have "list_all (\<lambda>k. base32DecodeMap (base32UpperCaseAlphabet ! k) = Some k \<and>
          base32UpperCaseAlphabet ! k \<noteq> CHR ''='') [0..<32]"
    by code_simp
  then show ?thesis
    by (simp add: alphabet_ok_def list_all_iff base32UpperCaseAlphabet_def)
qed

lemma base32_lower_alphabet_ok: "alphabet_ok base32LowerCaseAlphabet base32DecodeMap"
proof -
  have "list_all (\<lambda>k. base32DecodeMap (base32LowerCaseAlphabet ! k) = Some k \<and>
          base32LowerCaseAlphabet ! k \<noteq> CHR ''='') [0..<32]"
    by code_simp
  then show ?thesis
    by (simp add: alphabet_ok_def list_all_iff base32LowerCaseAlphabet_def)
qed

subsection \<open>Hexadecimal: nibbles\<close>

lemma hex_high_nibble:
  shows "sint (js_sar (ucast (b :: byte)) 4) = int (unat (drop_bit 4 b))"
    and "unat (drop_bit 4 b) < 16"
proof -
  have "js_sar (ucast b) 4 = (ucast (drop_bit 4 b) :: int32)"
    unfolding js_sar_def
    by (rule bit_word_eqI) (auto simp add: bit_simps dest: bit_imp_le_length)
  moreover have "sint (ucast (drop_bit 4 b) :: int32) = uint (drop_bit 4 b)"
    by (rule bit_eqI) (auto simp add: bit_simps min_def dest: bit_imp_le_length split: if_splits)
  ultimately show "sint (js_sar (ucast (b :: byte)) 4) = int (unat (drop_bit 4 b))"
    by simp
  have "unat b < 2 ^ 8"
    using unsigned_less [of b, where 'a = nat] by simp
  then show "unat (drop_bit 4 b) < 16"
    by (simp add: drop_bit_eq_div unat_div less_mult_imp_div_less)
qed

lemma hex_low_nibble:
  shows "sint (ucast (b :: byte) AND 0x0f :: int32) = int (unat (take_bit 4 b))"
    and "unat (take_bit 4 b) < 16"
proof -
  have m: "(0x0f :: int32) = mask 4" by (simp add: mask_eq_exp_minus_1)
  have "ucast b AND 0x0f = (ucast (take_bit 4 b) :: int32)"
    unfolding m
    by (rule bit_word_eqI) (auto simp add: bit_simps dest: bit_imp_le_length)
  moreover have "sint (ucast (take_bit 4 b) :: int32) = uint (take_bit 4 b)"
    by (rule bit_eqI) (auto simp add: bit_simps min_def dest: bit_imp_le_length split: if_splits)
  ultimately show "sint (ucast (b :: byte) AND 0x0f :: int32) = int (unat (take_bit 4 b))"
    by simp
  show "unat (take_bit 4 b) < 16"
    by (simp add: take_bit_eq_mod unat_mod)
qed

lemma hex_byte_join:
  fixes b :: byte
  shows "(ucast ((ucast (ucast (js_shl (ucast (drop_bit 4 b)) 4) :: byte) :: int32)
            OR ucast (take_bit 4 b)) :: byte) = b"
  unfolding js_shl_def
  by (rule bit_word_eqI) (auto simp add: bit_simps dest: bit_imp_le_length)

lemma encodeHex_loop_text:
  "length alphabet = 16 \<Longrightarrow>
     encodeHex_loop alphabet data result = result @ hex_text alphabet data"
proof (induction data arbitrary: result)
  case Nil
  show ?case by (simp add: hex_text_def)
next
  case (Cons b data)
  then show ?case
    using hex_high_nibble(2) [of b] hex_low_nibble(2) [of b]
    by (simp add: hex_text_def alphabet_at_def hex_high_nibble(1) hex_low_nibble(1))
qed

lemma length_hex_text: "length (hex_text alphabet data) = 2 * length data"
  by (induction data) (simp_all add: hex_text_def)

lemma hex_text_nth:
  "k < length data \<Longrightarrow>
     hex_text alphabet data ! (2 * k) = alphabet ! unat (drop_bit 4 (data ! k)) \<and>
     hex_text alphabet data ! (2 * k + 1) = alphabet ! unat (take_bit 4 (data ! k))"
proof (induction data arbitrary: k)
  case Nil
  then show ?case by simp
next
  case (Cons b data)
  show ?case
  proof (cases k)
    case 0
    then show ?thesis by (simp add: hex_text_def)
  next
    case (Suc k')
    then show ?thesis
      using Cons.IH [of k'] Cons.prems by (simp add: hex_text_def)
  qed
qed

lemma decodeHex_loop_text:
  assumes "alphabet_ok alphabet hex_decodeMap" "length alphabet = 16"
    and "k \<le> length data"
  shows "decodeHex_loop (hex_text alphabet data) (2 * k)
           (take k data @ replicate (length data - k) 0) = Inr data"
  using assms(3)
proof (induction "length data - k" arbitrary: k rule: less_induct)
  case less
  show ?case
  proof (cases "k < length data")
    case False
    then show ?thesis
      using less.prems by (simp add: decodeHex_loop.simps length_hex_text)
  next
    case True
    let ?b = "data ! k"
    let ?r = "take k data @ replicate (length data - k) (0 :: byte)"
    have hi: "lookup hex_decodeMap (str_at (hex_text alphabet data) (2 * k)) =
        Some (unat (drop_bit 4 ?b))"
      using True hex_text_nth [OF True, of alphabet] hex_high_nibble(2) [of ?b] assms(1,2)
      by (simp add: str_at_def length_hex_text lookup_def alphabet_ok_def)
    have lo: "lookup hex_decodeMap (str_at (hex_text alphabet data) (2 * k + 1)) =
        Some (unat (take_bit 4 ?b))"
      using True hex_text_nth [OF True, of alphabet] hex_low_nibble(2) [of ?b] assms(1,2)
      by (simp add: str_at_def length_hex_text lookup_def alphabet_ok_def)
    have r0: "?r ! k = 0"
      using True by (simp add: nth_append)
    have e: "length data - k = Suc (length data - Suc k)"
      using True by simp
    have upd: "?r[k := ?b] = take (Suc k) data @ replicate (length data - Suc k) 0"
      using True
      by (simp add: list_update_append take_Suc_conv_app_nth e)
    have lt: "length data - Suc k < length data - k"
      using True by simp
    have "decodeHex_loop (hex_text alphabet data) (2 * k) ?r =
        decodeHex_loop (hex_text alphabet data) (2 * k + 2) (?r[k := ?b])"
      using True
      apply (subst decodeHex_loop.simps)
      apply (simp only: hi lo length_hex_text Let_def option.case)
      apply (simp add: r0 hex_byte_join)
      done
    also have "\<dots> = Inr data"
      using less.hyps [OF lt] True by (simp add: upd)
    finally show ?thesis .
  qed
qed

subsection \<open>Base64: which error a decoder raises, and where\<close>

lemma decodeBase64_char_prefix:
  assumes "i + j < length t"
  shows "decodeBase64_char (t @ rest) decodeMap padding i j s =
     decodeBase64_char t decodeMap padding i j s"
proof -
  have a: "str_at (t @ rest) (i + j) = str_at t (i + j)"
    using assms by (rule str_at_append_left)
  have b: "str_at (t @ rest) (i + j - 1) = str_at t (i + j - 1)"
    using assms by (intro str_at_append_left) simp
  have c: "(length (t @ rest) \<le> i + j) = (length t \<le> i + j)"
    using assms by simp
  show ?thesis
    unfolding decodeBase64_char_def a b c ..
qed

lemma decodeBase64_window_prefix:
  assumes "i + 4 \<le> length t"
  shows "decodeBase64_window (t @ rest) decodeMap padding i =
     decodeBase64_window t decodeMap padding i"
proof -
  have "decodeBase64_chars (t @ rest) decodeMap padding i =
      decodeBase64_chars t decodeMap padding i"
    unfolding decodeBase64_chars_def
    using assms by (intro for_loop_cong decodeBase64_char_prefix) simp
  then show ?thesis by (simp add: decodeBase64_window_def)
qed

lemma decodeBase64_window_shift:
  "decodeBase64_window (t @ rest) decodeMap padding (length t + i) =
     decodeBase64_window rest decodeMap padding i"
  by (simp add: decodeBase64_window_def decodeBase64_chars_def decodeBase64_char_shift)

lemma decodeBase64_windows_prefix:
  assumes "4 dvd length t" "4 dvd i" "i \<le> length t"
  shows "decodeBase64_windows (t @ rest) decodeMap padding i =
     (case decodeBase64_windows t decodeMap padding i of
        Inl e \<Rightarrow> Inl e
      | Inr bytes \<Rightarrow>
          (case decodeBase64_windows rest decodeMap padding 0 of
             Inl e \<Rightarrow> Inl e | Inr more \<Rightarrow> Inr (bytes @ more)))"
  using assms(2,3)
proof (induction "length t - i" arbitrary: i rule: less_induct)
  case less
  show ?case
  proof (cases "i < length t")
    case False
    with less.prems have i: "i = length t" by simp
    have "decodeBase64_windows (t @ rest) decodeMap padding (length t + 0) =
        decodeBase64_windows rest decodeMap padding 0"
      by (rule decodeBase64_windows_shift)
    moreover have "decodeBase64_windows t decodeMap padding (length t) = Inr []"
      by (simp add: decodeBase64_windows.simps)
    ultimately show ?thesis
      unfolding i by (simp split: sum.splits)
  next
    case True
    with less.prems assms(1) have i4: "i + 4 \<le> length t"
      by (auto elim!: dvdE)
    have lt: "length t - (i + 4) < length t - i"
      using True by simp
    have d: "4 dvd i + 4"
      using less.prems(1) by simp
    note IH = less.hyps [OF lt d i4]
    show ?thesis
      using True
      by (subst decodeBase64_windows.simps, subst (2) decodeBase64_windows.simps)
        (simp add: decodeBase64_window_prefix [OF i4] IH split: sum.splits)
  qed
qed

lemma decodeBase64_internal_split:
  assumes "4 dvd w" "w \<le> length encoded"
  shows "decodeBase64_internal encoded decodeMap padding =
     (case decodeBase64_internal (take w encoded) decodeMap padding of
        Inl e \<Rightarrow> Inl e
      | Inr bytes \<Rightarrow>
          (case decodeBase64_windows (drop w encoded) decodeMap padding 0 of
             Inl e \<Rightarrow> Inl e | Inr more \<Rightarrow> Inr (bytes @ more)))"
proof -
  have "4 dvd length (take w encoded)"
    using assms by (simp add: min_absorb2)
  from decodeBase64_windows_prefix [OF this, of 0 "drop w encoded" decodeMap padding]
  show ?thesis
    by (simp add: decodeBase64_internal_windows)
qed

lemma decodeBase64_windows_first:
  assumes "w < length encoded"
  shows "decodeBase64_windows (drop w encoded) decodeMap padding 0 =
     (case decodeBase64_window encoded decodeMap padding w of
        Inl e \<Rightarrow> Inl e
      | Inr bytes \<Rightarrow>
          (case decodeBase64_windows (drop w encoded) decodeMap padding 4 of
             Inl e \<Rightarrow> Inl e | Inr more \<Rightarrow> Inr (bytes @ more)))"
proof -
  have "decodeBase64_window (take w encoded @ drop w encoded) decodeMap padding
          (length (take w encoded) + 0) =
        decodeBase64_window (drop w encoded) decodeMap padding 0"
    by (rule decodeBase64_window_shift)
  then have "decodeBase64_window (drop w encoded) decodeMap padding 0 =
      decodeBase64_window encoded decodeMap padding w"
    using assms by (simp add: min_absorb2)
  then show ?thesis
    using assms by (subst decodeBase64_windows.simps) (simp cong: sum.case_cong)
qed

lemma decodeBase64_window_error:
  assumes "4 dvd w" "w < length encoded"
    and "decodeBase64_window encoded decodeMap padding w = Inl e0"
  shows "\<exists>e. decodeBase64_internal encoded decodeMap padding = Inl e"
    and "(\<And>e. decodeBase64_internal (take w encoded) decodeMap padding = Inl e \<Longrightarrow> e = e0)
      \<Longrightarrow> decodeBase64_internal encoded decodeMap padding = Inl e0"
proof -
  have w: "w \<le> length encoded" using assms(2) by simp
  note split = decodeBase64_internal_split [OF assms(1) w, of decodeMap padding]
  note first = decodeBase64_windows_first [OF assms(2), of decodeMap padding]
  show "\<exists>e. decodeBase64_internal encoded decodeMap padding = Inl e"
    by (simp add: split first assms(3) split: sum.splits)
  assume "\<And>e. decodeBase64_internal (take w encoded) decodeMap padding = Inl e \<Longrightarrow> e = e0"
  then show "decodeBase64_internal encoded decodeMap padding = Inl e0"
    by (simp add: split first assms(3) split: sum.splits)
qed

lemma decodeBase64_char_after_pad:
  assumes "0 < j" "str_at encoded (i + j - 1) = Some CHR ''=''"
    and "i + j < length encoded" "encoded ! (i + j) \<noteq> CHR ''=''"
  shows "decodeBase64_char encoded decodeMap padding i j s = Inl InvalidPadding"
  using assms by (cases s) (simp add: decodeBase64_char_def str_at_def)

lemma decodeBase64_char_not_in_map:
  assumes "i + j < length encoded" "encoded ! (i + j) \<noteq> CHR ''=''"
    and "decodeMap (encoded ! (i + j)) = None"
  shows "decodeBase64_char encoded decodeMap padding i j s =
     Inl (if 0 < j \<and> str_at encoded (i + j - 1) = Some CHR ''=''
          then InvalidPadding else InvalidCharacter)"
  using assms by (cases s) (simp add: decodeBase64_char_def str_at_def lookup_def)

lemma decodeBase64_char_end_required:
  assumes "length encoded \<le> i + j"
  shows "decodeBase64_char encoded decodeMap Required i j s =
     Inl (if 0 < j \<and> str_at encoded (i + j - 1) = Some CHR ''=''
          then InvalidPadding else InvalidCharacter)"
  using assms by (cases s) (simp add: decodeBase64_char_def str_at_def lookup_def)

lemma decodeBase64_char_errors_padding:
  assumes "i + j < length encoded"
    and "encoded ! (i + j) = CHR ''='' \<or> decodeMap (encoded ! (i + j)) \<noteq> None"
    and "decodeBase64_char encoded decodeMap padding i j s = Inl e"
  shows "e = InvalidPadding"
  using assms
  by (cases s; cases padding)
    (auto simp add: decodeBase64_char_def str_at_def lookup_def split: if_splits)

lemma decodeBase64_char_data:
  assumes "i + j < length encoded" "decodeMap (encoded ! (i + j)) \<noteq> None"
    and "encoded ! (i + j) \<noteq> CHR ''=''"
    and "j = 0 \<or> encoded ! (i + j - 1) \<noteq> CHR ''=''"
  shows "\<exists>s'. decodeBase64_char encoded decodeMap padding i j s = Inr s'"
  using assms
  by (cases s; cases padding)
    (auto simp add: decodeBase64_char_def str_at_def lookup_def split: if_splits)

lemma decodeBase64_chars_error_at:
  assumes "j0 < 4"
    and "\<And>s. decodeBase64_char encoded decodeMap padding i j0 s = Inl e0"
    and "\<And>j s e. j < j0 \<Longrightarrow>
           decodeBase64_char encoded decodeMap padding i j s = Inl e \<Longrightarrow> e = e0"
  shows "decodeBase64_chars encoded decodeMap padding i = Inl e0"
  unfolding decodeBase64_chars_def upt_split_at [OF assms(1)]
  by (rule for_loop_only_error) (use assms(2,3) in auto)

lemma decodeBase64_chars_some_error:
  assumes "j0 < 4"
    and "\<And>s. \<exists>e. decodeBase64_char encoded decodeMap padding i j0 s = Inl e"
  shows "\<exists>e. decodeBase64_chars encoded decodeMap padding i = Inl e"
  unfolding decodeBase64_chars_def upt_split_at [OF assms(1)]
  by (rule for_loop_some_error) (rule assms(2))

lemma decodeBase64_window_chars_error:
  "decodeBase64_chars encoded decodeMap padding i = Inl e \<Longrightarrow>
     decodeBase64_window encoded decodeMap padding i = Inl e"
  by (simp add: decodeBase64_window_def)

lemma decodeBase64_error_at:
  assumes "4 dvd w" "w < length encoded" "j0 < 4"
    and "\<And>s. \<exists>e. decodeBase64_char encoded decodeMap padding w j0 s = Inl e"
  shows "\<exists>e. decodeBase64_internal encoded decodeMap padding = Inl e"
proof -
  obtain e where "decodeBase64_chars encoded decodeMap padding w = Inl e"
    using decodeBase64_chars_some_error [OF assms(3,4)] by blast
  then have "decodeBase64_window encoded decodeMap padding w = Inl e"
    by (rule decodeBase64_window_chars_error)
  then show ?thesis
    by (rule decodeBase64_window_error(1) [OF assms(1,2)])
qed

lemma decodeBase64_first_error_at:
  assumes "4 dvd w" "w < length encoded" "j0 < 4"
    and "\<And>s. decodeBase64_char encoded decodeMap padding w j0 s = Inl e0"
    and "\<And>j s e. j < j0 \<Longrightarrow>
           decodeBase64_char encoded decodeMap padding w j s = Inl e \<Longrightarrow> e = e0"
    and "\<And>e. decodeBase64_internal (take w encoded) decodeMap padding = Inl e \<Longrightarrow> e = e0"
  shows "decodeBase64_internal encoded decodeMap padding = Inl e0"
proof -
  have "decodeBase64_chars encoded decodeMap padding w = Inl e0"
    using assms(3,4,5) by (rule decodeBase64_chars_error_at)
  then have "decodeBase64_window encoded decodeMap padding w = Inl e0"
    by (rule decodeBase64_window_chars_error)
  then show ?thesis
    using assms(6) by (rule decodeBase64_window_error(2) [OF assms(1,2)])
qed

lemma decodeBase64_errors_padding:
  assumes "\<forall>k < length t. t ! k = CHR ''='' \<or> decodeMap (t ! k) \<noteq> None"
    and "4 dvd length t"
    and "decodeBase64_internal t decodeMap padding = Inl e"
  shows "e = InvalidPadding"
proof -
  have "4 dvd i \<Longrightarrow> decodeBase64_windows t decodeMap padding i = Inl e \<Longrightarrow>
      e = InvalidPadding" for i
  proof (induction "length t - i" arbitrary: i rule: less_induct)
    case less
    show ?case
    proof (cases "i < length t")
      case False
      with less.prems(2) show ?thesis
        by (simp add: decodeBase64_windows.simps)
    next
      case True
      with less.prems(1) assms(2) have i4: "i + 4 \<le> length t"
        by (auto elim!: dvdE)
      have lt: "length t - (i + 4) < length t - i"
        using True by simp
      have d: "4 dvd i + 4"
        using less.prems(1) by simp
      show ?thesis
      proof (cases "decodeBase64_window t decodeMap padding i")
        case (Inl e')
        then have "decodeBase64_windows t decodeMap padding i = Inl e'"
          using True by (subst decodeBase64_windows.simps) simp
        with less.prems(2) have "e' = e"
          by simp
        have "e' = InvalidPadding"
        proof (cases "decodeBase64_chars t decodeMap padding i")
          case (Inl e'')
          then have "e'' = e'"
            using \<open>decodeBase64_window t decodeMap padding i = Inl e'\<close>
            by (simp add: decodeBase64_window_def)
          moreover have "e'' = InvalidPadding"
          proof (rule for_loop_errors [OF _ Inl [unfolded decodeBase64_chars_def]])
            fix j s e3
            assume "j \<in> set [0..<4]"
              and "decodeBase64_char t decodeMap padding i j s = Inl e3"
            then show "e3 = InvalidPadding"
              using i4 assms(1)
              by (intro decodeBase64_char_errors_padding [of i j t decodeMap padding s]) auto
          qed
          ultimately show ?thesis by simp
        next
          case (Inr s)
          then show ?thesis
            using \<open>decodeBase64_window t decodeMap padding i = Inl e'\<close>
            by (cases s) (simp add: decodeBase64_window_def split: if_splits)
        qed
        with \<open>e' = e\<close> show ?thesis by simp
      next
        case (Inr bytes)
        then have "decodeBase64_windows t decodeMap padding i =
            (case decodeBase64_windows t decodeMap padding (i + 4) of
               Inl e \<Rightarrow> Inl e | Inr more \<Rightarrow> Inr (bytes @ more))"
          using True by (subst decodeBase64_windows.simps) simp
        with less.prems(2) have "decodeBase64_windows t decodeMap padding (i + 4) = Inl e"
          by (simp split: sum.splits)
        then show ?thesis
          by (rule less.hyps [OF lt d])
      qed
    qed
  qed
  from this [of 0] assms(3) show ?thesis
    by (simp add: decodeBase64_internal_windows)
qed

lemma decodeBase64_unaligned:
  assumes "length encoded mod 4 \<noteq> 0"
  shows "\<exists>e. decodeBase64_internal encoded decodeMap Required = Inl e"
proof -
  define w where "w = length encoded - length encoded mod 4"
  have w: "4 dvd w" "w + length encoded mod 4 = length encoded" "length encoded mod 4 < 4"
    unfolding w_def using window_start [of 4 "length encoded"] by simp_all
  then have lt: "w < length encoded"
    using assms by linarith
  show ?thesis
  proof (rule decodeBase64_error_at [OF w(1) lt w(3)])
    fix s
    show "\<exists>e. decodeBase64_char encoded decodeMap Required w (length encoded mod 4) s = Inl e"
      using decodeBase64_char_end_required [of encoded w "length encoded mod 4" decodeMap s] w(2)
      by simp
  qed
qed

lemma decodeBase64_unaligned_kind:
  assumes "length encoded mod 4 \<noteq> 0"
    and "\<exists>bytes. decodeBase64_internal (take (length encoded - length encoded mod 4) encoded)
           decodeMap Required = Inr bytes"
    and "\<forall>k. length encoded - length encoded mod 4 \<le> k \<and> k < length encoded \<longrightarrow>
           decodeMap (encoded ! k) \<noteq> None \<and> encoded ! k \<noteq> CHR ''=''"
  shows "decodeBase64_internal encoded decodeMap Required = Inl InvalidCharacter"
proof -
  define w where "w = length encoded - length encoded mod 4"
  have w: "4 dvd w" "w + length encoded mod 4 = length encoded" "length encoded mod 4 < 4"
    unfolding w_def using window_start [of 4 "length encoded"] by simp_all
  then have lt: "w < length encoded"
    using assms(1) by linarith
  have data: "decodeMap (encoded ! k) \<noteq> None \<and> encoded ! k \<noteq> CHR ''=''"
    if "w \<le> k" "k < length encoded" for k
    using assms(3) that unfolding w_def by blast
  show ?thesis
  proof (rule decodeBase64_first_error_at [OF w(1) lt w(3)])
    fix s
    have "\<not> (0 < length encoded mod 4 \<and>
        str_at encoded (w + length encoded mod 4 - 1) = Some CHR ''='')"
    proof
      assume a: "0 < length encoded mod 4 \<and>
        str_at encoded (w + length encoded mod 4 - 1) = Some CHR ''=''"
      then have "w \<le> w + length encoded mod 4 - 1"
        and "w + length encoded mod 4 - 1 < length encoded"
        using w(2) by linarith+
      from data [OF this] a show False
        by (simp add: str_at_def split: if_splits)
    qed
    then show "decodeBase64_char encoded decodeMap Required w (length encoded mod 4) s =
        Inl InvalidCharacter"
      using decodeBase64_char_end_required [of encoded w "length encoded mod 4" decodeMap s] w(2)
      by simp
  next
    fix j s e
    assume j: "j < length encoded mod 4"
      and e: "decodeBase64_char encoded decodeMap Required w j s = Inl e"
    have in_range: "w + j < length encoded"
      using j w(2) by linarith
    have prev: "j = 0 \<or> encoded ! (w + j - 1) \<noteq> CHR ''=''"
    proof (cases "j = 0")
      case False
      then have "w \<le> w + j - 1" "w + j - 1 < length encoded"
        using in_range by linarith+
      from data [OF this] show ?thesis by simp
    qed simp
    have "\<exists>s'. decodeBase64_char encoded decodeMap Required w j s = Inr s'"
      using in_range data [of "w + j"] prev
      by (intro decodeBase64_char_data) simp_all
    with e show "e = InvalidCharacter" by simp
  next
    fix e
    assume "decodeBase64_internal (take w encoded) decodeMap Required = Inl e"
    with assms(2) show "e = InvalidCharacter"
      unfolding w_def by auto
  qed
qed

lemma decodeBase64_not_in_map:
  assumes "q < length encoded" "encoded ! q \<noteq> CHR ''=''" "decodeMap (encoded ! q) = None"
  shows "\<exists>e. decodeBase64_internal encoded decodeMap padding = Inl e"
proof -
  define w where "w = q - q mod 4"
  have w: "4 dvd w" "w \<le> q" "q mod 4 < 4" "w + q mod 4 = q"
    unfolding w_def using window_start [of 4 q] by simp_all
  then have lt: "w < length encoded"
    using assms(1) by linarith
  show ?thesis
  proof (rule decodeBase64_error_at [OF w(1) lt w(3)])
    fix s
    show "\<exists>e. decodeBase64_char encoded decodeMap padding w (q mod 4) s = Inl e"
      using decodeBase64_char_not_in_map [of w "q mod 4" encoded decodeMap padding s] assms w(4)
      by simp
  qed
qed

lemma decodeBase64_not_in_map_kind:
  assumes "q < length encoded" "encoded ! q \<noteq> CHR ''=''" "decodeMap (encoded ! q) = None"
    and "\<exists>bytes. decodeBase64_internal (take (q - q mod 4) encoded) decodeMap padding
           = Inr bytes"
    and "\<forall>k. q - q mod 4 \<le> k \<and> k < q \<longrightarrow>
           decodeMap (encoded ! k) \<noteq> None \<and> encoded ! k \<noteq> CHR ''=''"
  shows "decodeBase64_internal encoded decodeMap padding = Inl InvalidCharacter"
proof -
  define w where "w = q - q mod 4"
  have w: "4 dvd w" "w \<le> q" "q mod 4 < 4" "w + q mod 4 = q"
    unfolding w_def using window_start [of 4 q] by simp_all
  then have lt: "w < length encoded"
    using assms(1) by linarith
  have data: "decodeMap (encoded ! k) \<noteq> None \<and> encoded ! k \<noteq> CHR ''=''"
    if "w \<le> k" "k < q" for k
    using assms(5) that unfolding w_def by blast
  show ?thesis
  proof (rule decodeBase64_first_error_at [OF w(1) lt w(3)])
    fix s
    have "\<not> (0 < q mod 4 \<and> str_at encoded (w + q mod 4 - 1) = Some CHR ''='')"
    proof
      assume a: "0 < q mod 4 \<and> str_at encoded (w + q mod 4 - 1) = Some CHR ''=''"
      then have "w \<le> w + q mod 4 - 1" and "w + q mod 4 - 1 < q"
        using w(4) by linarith+
      from data [OF this] a show False
        by (simp add: str_at_def split: if_splits)
    qed
    then show "decodeBase64_char encoded decodeMap padding w (q mod 4) s = Inl InvalidCharacter"
      using decodeBase64_char_not_in_map [of w "q mod 4" encoded decodeMap padding s] assms w(4)
      by simp
  next
    fix j s e
    assume j: "j < q mod 4"
      and e: "decodeBase64_char encoded decodeMap padding w j s = Inl e"
    have in_range: "w + j < q"
      using j w(4) by linarith
    have prev: "j = 0 \<or> encoded ! (w + j - 1) \<noteq> CHR ''=''"
    proof (cases "j = 0")
      case False
      then have "w \<le> w + j - 1" "w + j - 1 < q"
        using in_range by linarith+
      from data [OF this] show ?thesis by simp
    qed simp
    have "\<exists>s'. decodeBase64_char encoded decodeMap padding w j s = Inr s'"
      using in_range assms(1) data [of "w + j"] prev
      by (intro decodeBase64_char_data) simp_all
    with e show "e = InvalidCharacter" by simp
  next
    fix e
    assume "decodeBase64_internal (take w encoded) decodeMap padding = Inl e"
    with assms(4) show "e = InvalidCharacter"
      unfolding w_def by auto
  qed
qed

lemma decodeBase64_data_after_pad:
  assumes "4 dvd w" "j < j'" "j' < 4" "w + j' < length encoded"
    and "encoded ! (w + j) = CHR ''=''" "encoded ! (w + j') \<noteq> CHR ''=''"
  shows "\<exists>e. decodeBase64_internal encoded decodeMap padding = Inl e"
    and "\<forall>k < w + j. encoded ! k = CHR ''='' \<or> decodeMap (encoded ! k) \<noteq> None \<Longrightarrow>
      decodeBase64_internal encoded decodeMap padding = Inl InvalidPadding"
proof -
  obtain j0 where j0: "j < j0" "j0 \<le> j'" "encoded ! (w + j0) \<noteq> CHR ''=''"
    and pads: "\<And>x. j \<le> x \<Longrightarrow> x < j0 \<Longrightarrow> encoded ! (w + x) = CHR ''=''"
    using first_data_after_pad [OF assms(2,5,6)] by blast
  have j04: "j0 < 4" and in_range: "w + j0 < length encoded" and lt: "w < length encoded"
    using j0 assms(3,4) by linarith+
  have "encoded ! (w + (j0 - 1)) = CHR ''=''"
    using j0(1) by (intro pads) linarith+
  then have prev: "str_at encoded (w + j0 - 1) = Some CHR ''=''"
    using j0(1) in_range by (simp add: str_at_def)
  have step: "decodeBase64_char encoded decodeMap padding w j0 s = Inl InvalidPadding" for s
    using j0(1,3) prev in_range by (intro decodeBase64_char_after_pad) simp_all
  show "\<exists>e. decodeBase64_internal encoded decodeMap padding = Inl e"
    using step by (intro decodeBase64_error_at [OF assms(1) lt j04]) blast
  assume ok: "\<forall>k < w + j. encoded ! k = CHR ''='' \<or> decodeMap (encoded ! k) \<noteq> None"
  show "decodeBase64_internal encoded decodeMap padding = Inl InvalidPadding"
  proof (rule decodeBase64_first_error_at [OF assms(1) lt j04 step])
    fix x s e
    assume x: "x < j0"
      and e: "decodeBase64_char encoded decodeMap padding w x s = Inl e"
    have "encoded ! (w + x) = CHR ''='' \<or> decodeMap (encoded ! (w + x)) \<noteq> None"
    proof (cases "x < j")
      case True
      then show ?thesis using ok by simp
    next
      case False
      then show ?thesis using pads [of x] x by simp
    qed
    moreover have "w + x < length encoded"
      using x in_range by linarith
    ultimately show "e = InvalidPadding"
      using e by (intro decodeBase64_char_errors_padding [of w x encoded decodeMap padding s])
  next
    fix e
    assume e: "decodeBase64_internal (take w encoded) decodeMap padding = Inl e"
    have "\<forall>k < length (take w encoded).
        take w encoded ! k = CHR ''='' \<or> decodeMap (take w encoded ! k) \<noteq> None"
      using ok by simp
    moreover have "4 dvd length (take w encoded)"
      using assms(1) lt by (simp add: min_absorb2)
    ultimately show "e = InvalidPadding"
      using e by (rule decodeBase64_errors_padding)
  qed
qed

lemma decodeBase64_bad_padding_iff:
  assumes "bitsRead < 24"
  shows "decodeBase64_bad_padding chunk bitsRead \<longleftrightarrow>
     \<not> ((bitsRead = 12 \<or> bitsRead = 18) \<and> take_bit (24 - 8 * (bitsRead div 8)) chunk = 0)"
  using assms by (auto simp add: decodeBase64_bad_padding_def m8 m16 take_bit_eq_mask)

lemma decodeBase64_short_window:
  assumes "4 dvd w" "w < length encoded"
    and "decodeBase64_chars encoded decodeMap padding w = Inr (chunk, bitsRead)"
    and "bitsRead < 24"
    and "\<not> ((bitsRead = 12 \<or> bitsRead = 18) \<and> take_bit (24 - 8 * (bitsRead div 8)) chunk = 0)"
  shows "\<exists>e. decodeBase64_internal encoded decodeMap padding = Inl e"
    and "\<exists>bytes. decodeBase64_internal (take w encoded) decodeMap padding = Inr bytes \<Longrightarrow>
      decodeBase64_internal encoded decodeMap padding = Inl InvalidPadding"
proof -
  have "decodeBase64_bad_padding chunk bitsRead"
    using assms(4,5) by (simp add: decodeBase64_bad_padding_iff)
  then have win: "decodeBase64_window encoded decodeMap padding w = Inl InvalidPadding"
    by (simp add: decodeBase64_window_def assms(3))
  show "\<exists>e. decodeBase64_internal encoded decodeMap padding = Inl e"
    using win by (rule decodeBase64_window_error(1) [OF assms(1,2)])
  assume "\<exists>bytes. decodeBase64_internal (take w encoded) decodeMap padding = Inr bytes"
  then show "decodeBase64_internal encoded decodeMap padding = Inl InvalidPadding"
    by (intro decodeBase64_window_error(2) [OF assms(1,2) win]) auto
qed

lemma decodeBase64_short_window_ok:
  assumes "decodeBase64_chars encoded decodeMap padding w = Inr (chunk, bitsRead)"
    and "bitsRead < 24"
    and "(bitsRead = 12 \<or> bitsRead = 18) \<and> take_bit (24 - 8 * (bitsRead div 8)) chunk = 0"
  shows "decodeBase64_window encoded decodeMap padding w =
     Inr (decodeBase64_bytes chunk bitsRead)"
  using assms by (simp add: decodeBase64_window_def decodeBase64_bad_padding_iff)

subsection \<open>Base32: which error a decoder raises, and where\<close>

lemma decodeBase32_char_prefix:
  assumes "i + j < length t"
  shows "decodeBase32_char (t @ rest) decodeMap padding i j s =
     decodeBase32_char t decodeMap padding i j s"
proof -
  have a: "str_at (t @ rest) (i + j) = str_at t (i + j)"
    using assms by (rule str_at_append_left)
  have b: "str_at (t @ rest) (i + j - 1) = str_at t (i + j - 1)"
    using assms by (intro str_at_append_left) simp
  have c: "(length (t @ rest) \<le> i + j) = (length t \<le> i + j)"
    using assms by simp
  show ?thesis
    unfolding decodeBase32_char_def a b c ..
qed

lemma decodeBase32_window_prefix:
  assumes "i + 8 \<le> length t"
  shows "decodeBase32_window (t @ rest) decodeMap padding i =
     decodeBase32_window t decodeMap padding i"
proof -
  have "decodeBase32_chars (t @ rest) decodeMap padding i =
      decodeBase32_chars t decodeMap padding i"
    unfolding decodeBase32_chars_def
    using assms by (intro for_loop_cong decodeBase32_char_prefix) simp
  then show ?thesis by (simp add: decodeBase32_window_def)
qed

lemma decodeBase32_window_shift:
  "decodeBase32_window (t @ rest) decodeMap padding (length t + i) =
     decodeBase32_window rest decodeMap padding i"
  by (simp add: decodeBase32_window_def decodeBase32_chars_def decodeBase32_char_shift)

lemma decodeBase32_windows_prefix:
  assumes "8 dvd length t" "8 dvd i" "i \<le> length t"
  shows "decodeBase32_windows (t @ rest) decodeMap padding i =
     (case decodeBase32_windows t decodeMap padding i of
        Inl e \<Rightarrow> Inl e
      | Inr bytes \<Rightarrow>
          (case decodeBase32_windows rest decodeMap padding 0 of
             Inl e \<Rightarrow> Inl e | Inr more \<Rightarrow> Inr (bytes @ more)))"
  using assms(2,3)
proof (induction "length t - i" arbitrary: i rule: less_induct)
  case less
  show ?case
  proof (cases "i < length t")
    case False
    with less.prems have i: "i = length t" by simp
    have "decodeBase32_windows (t @ rest) decodeMap padding (length t + 0) =
        decodeBase32_windows rest decodeMap padding 0"
      by (rule decodeBase32_windows_shift)
    moreover have "decodeBase32_windows t decodeMap padding (length t) = Inr []"
      by (simp add: decodeBase32_windows.simps)
    ultimately show ?thesis
      unfolding i by (simp split: sum.splits)
  next
    case True
    with less.prems assms(1) have i4: "i + 8 \<le> length t"
      by (auto elim!: dvdE)
    have lt: "length t - (i + 8) < length t - i"
      using True by simp
    have d: "8 dvd i + 8"
      using less.prems(1) by simp
    note IH = less.hyps [OF lt d i4]
    show ?thesis
      using True
      by (subst decodeBase32_windows.simps, subst (2) decodeBase32_windows.simps)
        (simp add: decodeBase32_window_prefix [OF i4] IH split: sum.splits)
  qed
qed

lemma decodeBase32_internal_split:
  assumes "8 dvd w" "w \<le> length encoded"
  shows "decodeBase32_internal encoded decodeMap padding =
     (case decodeBase32_internal (take w encoded) decodeMap padding of
        Inl e \<Rightarrow> Inl e
      | Inr bytes \<Rightarrow>
          (case decodeBase32_windows (drop w encoded) decodeMap padding 0 of
             Inl e \<Rightarrow> Inl e | Inr more \<Rightarrow> Inr (bytes @ more)))"
proof -
  have "8 dvd length (take w encoded)"
    using assms by (simp add: min_absorb2)
  from decodeBase32_windows_prefix [OF this, of 0 "drop w encoded" decodeMap padding]
  show ?thesis
    by (simp add: decodeBase32_internal_windows)
qed

lemma decodeBase32_windows_first:
  assumes "w < length encoded"
  shows "decodeBase32_windows (drop w encoded) decodeMap padding 0 =
     (case decodeBase32_window encoded decodeMap padding w of
        Inl e \<Rightarrow> Inl e
      | Inr bytes \<Rightarrow>
          (case decodeBase32_windows (drop w encoded) decodeMap padding 8 of
             Inl e \<Rightarrow> Inl e | Inr more \<Rightarrow> Inr (bytes @ more)))"
proof -
  have "decodeBase32_window (take w encoded @ drop w encoded) decodeMap padding
          (length (take w encoded) + 0) =
        decodeBase32_window (drop w encoded) decodeMap padding 0"
    by (rule decodeBase32_window_shift)
  then have "decodeBase32_window (drop w encoded) decodeMap padding 0 =
      decodeBase32_window encoded decodeMap padding w"
    using assms by (simp add: min_absorb2)
  then show ?thesis
    using assms by (subst decodeBase32_windows.simps) (simp cong: sum.case_cong)
qed

lemma decodeBase32_window_error:
  assumes "8 dvd w" "w < length encoded"
    and "decodeBase32_window encoded decodeMap padding w = Inl e0"
  shows "\<exists>e. decodeBase32_internal encoded decodeMap padding = Inl e"
    and "(\<And>e. decodeBase32_internal (take w encoded) decodeMap padding = Inl e \<Longrightarrow> e = e0)
      \<Longrightarrow> decodeBase32_internal encoded decodeMap padding = Inl e0"
proof -
  have w: "w \<le> length encoded" using assms(2) by simp
  note split = decodeBase32_internal_split [OF assms(1) w, of decodeMap padding]
  note first = decodeBase32_windows_first [OF assms(2), of decodeMap padding]
  show "\<exists>e. decodeBase32_internal encoded decodeMap padding = Inl e"
    by (simp add: split first assms(3) split: sum.splits)
  assume "\<And>e. decodeBase32_internal (take w encoded) decodeMap padding = Inl e \<Longrightarrow> e = e0"
  then show "decodeBase32_internal encoded decodeMap padding = Inl e0"
    by (simp add: split first assms(3) split: sum.splits)
qed

lemma decodeBase32_char_after_pad:
  assumes "0 < j" "str_at encoded (i + j - 1) = Some CHR ''=''"
    and "i + j < length encoded" "encoded ! (i + j) \<noteq> CHR ''=''"
  shows "decodeBase32_char encoded decodeMap padding i j s = Inl InvalidPadding"
  using assms by (cases s) (simp add: decodeBase32_char_def str_at_def)

lemma decodeBase32_char_not_in_map:
  assumes "i + j < length encoded" "encoded ! (i + j) \<noteq> CHR ''=''"
    and "decodeMap (encoded ! (i + j)) = None"
  shows "decodeBase32_char encoded decodeMap padding i j s =
     Inl (if 0 < j \<and> str_at encoded (i + j - 1) = Some CHR ''=''
          then InvalidPadding else InvalidCharacter)"
  using assms by (cases s) (simp add: decodeBase32_char_def str_at_def lookup_def)

lemma decodeBase32_char_end_required:
  assumes "length encoded \<le> i + j"
  shows "decodeBase32_char encoded decodeMap Required i j s = Inl InvalidPadding"
  using assms by (cases s) (simp add: decodeBase32_char_def str_at_def)

lemma decodeBase32_char_errors_padding:
  assumes "i + j < length encoded"
    and "encoded ! (i + j) = CHR ''='' \<or> decodeMap (encoded ! (i + j)) \<noteq> None"
    and "decodeBase32_char encoded decodeMap padding i j s = Inl e"
  shows "e = InvalidPadding"
  using assms
  by (cases s; cases padding)
    (auto simp add: decodeBase32_char_def str_at_def lookup_def split: if_splits)

lemma decodeBase32_char_data:
  assumes "i + j < length encoded" "decodeMap (encoded ! (i + j)) \<noteq> None"
    and "encoded ! (i + j) \<noteq> CHR ''=''"
    and "j = 0 \<or> encoded ! (i + j - 1) \<noteq> CHR ''=''"
  shows "\<exists>s'. decodeBase32_char encoded decodeMap padding i j s = Inr s'"
  using assms
  by (cases s; cases padding)
    (auto simp add: decodeBase32_char_def str_at_def lookup_def split: if_splits)

lemma decodeBase32_chars_error_at:
  assumes "j0 < 8"
    and "\<And>s. decodeBase32_char encoded decodeMap padding i j0 s = Inl e0"
    and "\<And>j s e. j < j0 \<Longrightarrow>
           decodeBase32_char encoded decodeMap padding i j s = Inl e \<Longrightarrow> e = e0"
  shows "decodeBase32_chars encoded decodeMap padding i = Inl e0"
  unfolding decodeBase32_chars_def upt_split_at [OF assms(1)]
  by (rule for_loop_only_error) (use assms(2,3) in auto)

lemma decodeBase32_chars_some_error:
  assumes "j0 < 8"
    and "\<And>s. \<exists>e. decodeBase32_char encoded decodeMap padding i j0 s = Inl e"
  shows "\<exists>e. decodeBase32_chars encoded decodeMap padding i = Inl e"
  unfolding decodeBase32_chars_def upt_split_at [OF assms(1)]
  by (rule for_loop_some_error) (rule assms(2))

lemma decodeBase32_window_chars_error:
  "decodeBase32_chars encoded decodeMap padding i = Inl e \<Longrightarrow>
     decodeBase32_window encoded decodeMap padding i = Inl e"
  by (simp add: decodeBase32_window_def)

lemma decodeBase32_error_at:
  assumes "8 dvd w" "w < length encoded" "j0 < 8"
    and "\<And>s. \<exists>e. decodeBase32_char encoded decodeMap padding w j0 s = Inl e"
  shows "\<exists>e. decodeBase32_internal encoded decodeMap padding = Inl e"
proof -
  obtain e where "decodeBase32_chars encoded decodeMap padding w = Inl e"
    using decodeBase32_chars_some_error [OF assms(3,4)] by blast
  then have "decodeBase32_window encoded decodeMap padding w = Inl e"
    by (rule decodeBase32_window_chars_error)
  then show ?thesis
    by (rule decodeBase32_window_error(1) [OF assms(1,2)])
qed

lemma decodeBase32_first_error_at:
  assumes "8 dvd w" "w < length encoded" "j0 < 8"
    and "\<And>s. decodeBase32_char encoded decodeMap padding w j0 s = Inl e0"
    and "\<And>j s e. j < j0 \<Longrightarrow>
           decodeBase32_char encoded decodeMap padding w j s = Inl e \<Longrightarrow> e = e0"
    and "\<And>e. decodeBase32_internal (take w encoded) decodeMap padding = Inl e \<Longrightarrow> e = e0"
  shows "decodeBase32_internal encoded decodeMap padding = Inl e0"
proof -
  have "decodeBase32_chars encoded decodeMap padding w = Inl e0"
    using assms(3,4,5) by (rule decodeBase32_chars_error_at)
  then have "decodeBase32_window encoded decodeMap padding w = Inl e0"
    by (rule decodeBase32_window_chars_error)
  then show ?thesis
    using assms(6) by (rule decodeBase32_window_error(2) [OF assms(1,2)])
qed

lemma decodeBase32_errors_padding:
  assumes "\<forall>k < length t. t ! k = CHR ''='' \<or> decodeMap (t ! k) \<noteq> None"
    and "8 dvd length t"
    and "decodeBase32_internal t decodeMap padding = Inl e"
  shows "e = InvalidPadding"
proof -
  have "8 dvd i \<Longrightarrow> decodeBase32_windows t decodeMap padding i = Inl e \<Longrightarrow>
      e = InvalidPadding" for i
  proof (induction "length t - i" arbitrary: i rule: less_induct)
    case less
    show ?case
    proof (cases "i < length t")
      case False
      with less.prems(2) show ?thesis
        by (simp add: decodeBase32_windows.simps)
    next
      case True
      with less.prems(1) assms(2) have i4: "i + 8 \<le> length t"
        by (auto elim!: dvdE)
      have lt: "length t - (i + 8) < length t - i"
        using True by simp
      have d: "8 dvd i + 8"
        using less.prems(1) by simp
      show ?thesis
      proof (cases "decodeBase32_window t decodeMap padding i")
        case (Inl e')
        then have "decodeBase32_windows t decodeMap padding i = Inl e'"
          using True by (subst decodeBase32_windows.simps) simp
        with less.prems(2) have "e' = e"
          by simp
        have "e' = InvalidPadding"
        proof (cases "decodeBase32_chars t decodeMap padding i")
          case (Inl e'')
          then have "e'' = e'"
            using \<open>decodeBase32_window t decodeMap padding i = Inl e'\<close>
            by (simp add: decodeBase32_window_def)
          moreover have "e'' = InvalidPadding"
          proof (rule for_loop_errors [OF _ Inl [unfolded decodeBase32_chars_def]])
            fix j s e3
            assume "j \<in> set [0..<8]"
              and "decodeBase32_char t decodeMap padding i j s = Inl e3"
            then show "e3 = InvalidPadding"
              using i4 assms(1)
              by (intro decodeBase32_char_errors_padding [of i j t decodeMap padding s]) auto
          qed
          ultimately show ?thesis by simp
        next
          case (Inr s)
          then show ?thesis
            using \<open>decodeBase32_window t decodeMap padding i = Inl e'\<close>
            by (cases s) (simp add: decodeBase32_window_def split: if_splits)
        qed
        with \<open>e' = e\<close> show ?thesis by simp
      next
        case (Inr bytes)
        then have "decodeBase32_windows t decodeMap padding i =
            (case decodeBase32_windows t decodeMap padding (i + 8) of
               Inl e \<Rightarrow> Inl e | Inr more \<Rightarrow> Inr (bytes @ more))"
          using True by (subst decodeBase32_windows.simps) simp
        with less.prems(2) have "decodeBase32_windows t decodeMap padding (i + 8) = Inl e"
          by (simp split: sum.splits)
        then show ?thesis
          by (rule less.hyps [OF lt d])
      qed
    qed
  qed
  from this [of 0] assms(3) show ?thesis
    by (simp add: decodeBase32_internal_windows)
qed

lemma decodeBase32_unaligned:
  assumes "length encoded mod 8 \<noteq> 0"
  shows "\<exists>e. decodeBase32_internal encoded decodeMap Required = Inl e"
proof -
  define w where "w = length encoded - length encoded mod 8"
  have w: "8 dvd w" "w + length encoded mod 8 = length encoded" "length encoded mod 8 < 8"
    unfolding w_def using window_start [of 8 "length encoded"] by simp_all
  then have lt: "w < length encoded"
    using assms by linarith
  show ?thesis
  proof (rule decodeBase32_error_at [OF w(1) lt w(3)])
    fix s
    show "\<exists>e. decodeBase32_char encoded decodeMap Required w (length encoded mod 8) s = Inl e"
      using decodeBase32_char_end_required [of encoded w "length encoded mod 8" decodeMap s] w(2)
      by simp
  qed
qed

lemma decodeBase32_unaligned_kind:
  assumes "length encoded mod 8 \<noteq> 0"
    and "\<exists>bytes. decodeBase32_internal (take (length encoded - length encoded mod 8) encoded)
           decodeMap Required = Inr bytes"
    and "\<forall>k. length encoded - length encoded mod 8 \<le> k \<and> k < length encoded \<longrightarrow>
           decodeMap (encoded ! k) \<noteq> None \<and> encoded ! k \<noteq> CHR ''=''"
  shows "decodeBase32_internal encoded decodeMap Required = Inl InvalidPadding"
proof -
  define w where "w = length encoded - length encoded mod 8"
  have w: "8 dvd w" "w + length encoded mod 8 = length encoded" "length encoded mod 8 < 8"
    unfolding w_def using window_start [of 8 "length encoded"] by simp_all
  then have lt: "w < length encoded"
    using assms(1) by linarith
  have data: "decodeMap (encoded ! k) \<noteq> None \<and> encoded ! k \<noteq> CHR ''=''"
    if "w \<le> k" "k < length encoded" for k
    using assms(3) that unfolding w_def by blast
  show ?thesis
  proof (rule decodeBase32_first_error_at [OF w(1) lt w(3)])
    fix s
    show "decodeBase32_char encoded decodeMap Required w (length encoded mod 8) s =
        Inl InvalidPadding"
      using decodeBase32_char_end_required [of encoded w "length encoded mod 8" decodeMap s] w(2)
      by simp
  next
    fix j s e
    assume j: "j < length encoded mod 8"
      and e: "decodeBase32_char encoded decodeMap Required w j s = Inl e"
    have in_range: "w + j < length encoded"
      using j w(2) by linarith
    have prev: "j = 0 \<or> encoded ! (w + j - 1) \<noteq> CHR ''=''"
    proof (cases "j = 0")
      case False
      then have "w \<le> w + j - 1" "w + j - 1 < length encoded"
        using in_range by linarith+
      from data [OF this] show ?thesis by simp
    qed simp
    have "\<exists>s'. decodeBase32_char encoded decodeMap Required w j s = Inr s'"
      using in_range data [of "w + j"] prev
      by (intro decodeBase32_char_data) simp_all
    with e show "e = InvalidPadding" by simp
  next
    fix e
    assume "decodeBase32_internal (take w encoded) decodeMap Required = Inl e"
    with assms(2) show "e = InvalidPadding"
      unfolding w_def by auto
  qed
qed

lemma decodeBase32_not_in_map:
  assumes "q < length encoded" "encoded ! q \<noteq> CHR ''=''" "decodeMap (encoded ! q) = None"
  shows "\<exists>e. decodeBase32_internal encoded decodeMap padding = Inl e"
proof -
  define w where "w = q - q mod 8"
  have w: "8 dvd w" "w \<le> q" "q mod 8 < 8" "w + q mod 8 = q"
    unfolding w_def using window_start [of 8 q] by simp_all
  then have lt: "w < length encoded"
    using assms(1) by linarith
  show ?thesis
  proof (rule decodeBase32_error_at [OF w(1) lt w(3)])
    fix s
    show "\<exists>e. decodeBase32_char encoded decodeMap padding w (q mod 8) s = Inl e"
      using decodeBase32_char_not_in_map [of w "q mod 8" encoded decodeMap padding s] assms w(4)
      by simp
  qed
qed

lemma decodeBase32_not_in_map_kind:
  assumes "q < length encoded" "encoded ! q \<noteq> CHR ''=''" "decodeMap (encoded ! q) = None"
    and "\<exists>bytes. decodeBase32_internal (take (q - q mod 8) encoded) decodeMap padding
           = Inr bytes"
    and "\<forall>k. q - q mod 8 \<le> k \<and> k < q \<longrightarrow>
           decodeMap (encoded ! k) \<noteq> None \<and> encoded ! k \<noteq> CHR ''=''"
  shows "decodeBase32_internal encoded decodeMap padding = Inl InvalidCharacter"
proof -
  define w where "w = q - q mod 8"
  have w: "8 dvd w" "w \<le> q" "q mod 8 < 8" "w + q mod 8 = q"
    unfolding w_def using window_start [of 8 q] by simp_all
  then have lt: "w < length encoded"
    using assms(1) by linarith
  have data: "decodeMap (encoded ! k) \<noteq> None \<and> encoded ! k \<noteq> CHR ''=''"
    if "w \<le> k" "k < q" for k
    using assms(5) that unfolding w_def by blast
  show ?thesis
  proof (rule decodeBase32_first_error_at [OF w(1) lt w(3)])
    fix s
    have "\<not> (0 < q mod 8 \<and> str_at encoded (w + q mod 8 - 1) = Some CHR ''='')"
    proof
      assume a: "0 < q mod 8 \<and> str_at encoded (w + q mod 8 - 1) = Some CHR ''=''"
      then have "w \<le> w + q mod 8 - 1" and "w + q mod 8 - 1 < q"
        using w(4) by linarith+
      from data [OF this] a show False
        by (simp add: str_at_def split: if_splits)
    qed
    then show "decodeBase32_char encoded decodeMap padding w (q mod 8) s = Inl InvalidCharacter"
      using decodeBase32_char_not_in_map [of w "q mod 8" encoded decodeMap padding s] assms w(4)
      by simp
  next
    fix j s e
    assume j: "j < q mod 8"
      and e: "decodeBase32_char encoded decodeMap padding w j s = Inl e"
    have in_range: "w + j < q"
      using j w(4) by linarith
    have prev: "j = 0 \<or> encoded ! (w + j - 1) \<noteq> CHR ''=''"
    proof (cases "j = 0")
      case False
      then have "w \<le> w + j - 1" "w + j - 1 < q"
        using in_range by linarith+
      from data [OF this] show ?thesis by simp
    qed simp
    have "\<exists>s'. decodeBase32_char encoded decodeMap padding w j s = Inr s'"
      using in_range assms(1) data [of "w + j"] prev
      by (intro decodeBase32_char_data) simp_all
    with e show "e = InvalidCharacter" by simp
  next
    fix e
    assume "decodeBase32_internal (take w encoded) decodeMap padding = Inl e"
    with assms(4) show "e = InvalidCharacter"
      unfolding w_def by auto
  qed
qed

lemma decodeBase32_data_after_pad:
  assumes "8 dvd w" "j < j'" "j' < 8" "w + j' < length encoded"
    and "encoded ! (w + j) = CHR ''=''" "encoded ! (w + j') \<noteq> CHR ''=''"
  shows "\<exists>e. decodeBase32_internal encoded decodeMap padding = Inl e"
    and "\<forall>k < w + j. encoded ! k = CHR ''='' \<or> decodeMap (encoded ! k) \<noteq> None \<Longrightarrow>
      decodeBase32_internal encoded decodeMap padding = Inl InvalidPadding"
proof -
  obtain j0 where j0: "j < j0" "j0 \<le> j'" "encoded ! (w + j0) \<noteq> CHR ''=''"
    and pads: "\<And>x. j \<le> x \<Longrightarrow> x < j0 \<Longrightarrow> encoded ! (w + x) = CHR ''=''"
    using first_data_after_pad [OF assms(2,5,6)] by blast
  have j04: "j0 < 8" and in_range: "w + j0 < length encoded" and lt: "w < length encoded"
    using j0 assms(3,4) by linarith+
  have "encoded ! (w + (j0 - 1)) = CHR ''=''"
    using j0(1) by (intro pads) linarith+
  then have prev: "str_at encoded (w + j0 - 1) = Some CHR ''=''"
    using j0(1) in_range by (simp add: str_at_def)
  have step: "decodeBase32_char encoded decodeMap padding w j0 s = Inl InvalidPadding" for s
    using j0(1,3) prev in_range by (intro decodeBase32_char_after_pad) simp_all
  show "\<exists>e. decodeBase32_internal encoded decodeMap padding = Inl e"
    using step by (intro decodeBase32_error_at [OF assms(1) lt j04]) blast
  assume ok: "\<forall>k < w + j. encoded ! k = CHR ''='' \<or> decodeMap (encoded ! k) \<noteq> None"
  show "decodeBase32_internal encoded decodeMap padding = Inl InvalidPadding"
  proof (rule decodeBase32_first_error_at [OF assms(1) lt j04 step])
    fix x s e
    assume x: "x < j0"
      and e: "decodeBase32_char encoded decodeMap padding w x s = Inl e"
    have "encoded ! (w + x) = CHR ''='' \<or> decodeMap (encoded ! (w + x)) \<noteq> None"
    proof (cases "x < j")
      case True
      then show ?thesis using ok by simp
    next
      case False
      then show ?thesis using pads [of x] x by simp
    qed
    moreover have "w + x < length encoded"
      using x in_range by linarith
    ultimately show "e = InvalidPadding"
      using e by (intro decodeBase32_char_errors_padding [of w x encoded decodeMap padding s])
  next
    fix e
    assume e: "decodeBase32_internal (take w encoded) decodeMap padding = Inl e"
    have "\<forall>k < length (take w encoded).
        take w encoded ! k = CHR ''='' \<or> decodeMap (take w encoded ! k) \<noteq> None"
      using ok by simp
    moreover have "8 dvd length (take w encoded)"
      using assms(1) lt by (simp add: min_absorb2)
    ultimately show "e = InvalidPadding"
      using e by (rule decodeBase32_errors_padding)
  qed
qed

lemma decodeBase32_bad_padding_iff:
  assumes "bitsRead < 40"
  shows "decodeBase32_bad_padding chunk bitsRead \<longleftrightarrow>
     \<not> ((bitsRead = 10 \<or> bitsRead = 20 \<or> bitsRead = 25 \<or> bitsRead = 35) \<and>
        take_bit (40 - 8 * (bitsRead div 8)) chunk = 0)"
  using assms
  by (auto simp add: decodeBase32_bad_padding_def m8i m16i m24i m32i take_bit_eq_mask)

lemma decodeBase32_short_window:
  assumes "8 dvd w" "w < length encoded"
    and "decodeBase32_chars encoded decodeMap padding w = Inr (chunk, bitsRead)"
    and "bitsRead < 40"
    and "\<not> ((bitsRead = 10 \<or> bitsRead = 20 \<or> bitsRead = 25 \<or> bitsRead = 35) \<and> take_bit (40 - 8 * (bitsRead div 8)) chunk = 0)"
  shows "\<exists>e. decodeBase32_internal encoded decodeMap padding = Inl e"
    and "\<exists>bytes. decodeBase32_internal (take w encoded) decodeMap padding = Inr bytes \<Longrightarrow>
      decodeBase32_internal encoded decodeMap padding = Inl InvalidPadding"
proof -
  have "decodeBase32_bad_padding chunk bitsRead"
    using assms(4,5) by (simp add: decodeBase32_bad_padding_iff)
  then have win: "decodeBase32_window encoded decodeMap padding w = Inl InvalidPadding"
    by (simp add: decodeBase32_window_def assms(3))
  show "\<exists>e. decodeBase32_internal encoded decodeMap padding = Inl e"
    using win by (rule decodeBase32_window_error(1) [OF assms(1,2)])
  assume "\<exists>bytes. decodeBase32_internal (take w encoded) decodeMap padding = Inr bytes"
  then show "decodeBase32_internal encoded decodeMap padding = Inl InvalidPadding"
    by (intro decodeBase32_window_error(2) [OF assms(1,2) win]) auto
qed

lemma decodeBase32_short_window_ok:
  assumes "decodeBase32_chars encoded decodeMap padding w = Inr (chunk, bitsRead)"
    and "bitsRead < 40"
    and "(bitsRead = 10 \<or> bitsRead = 20 \<or> bitsRead = 25 \<or> bitsRead = 35) \<and> take_bit (40 - 8 * (bitsRead div 8)) chunk = 0"
  shows "decodeBase32_window encoded decodeMap padding w =
     Inr (decodeBase32_bytes chunk bitsRead)"
  using assms by (simp add: decodeBase32_window_def decodeBase32_bad_padding_iff)

subsection \<open>The alphabets and their decode maps\<close>

lemma hex_upper_alphabet_ok: "alphabet_ok alphabetUpperCase hex_decodeMap"
proof -
  have "list_all (\<lambda>k. hex_decodeMap (alphabetUpperCase ! k) = Some k \<and>
          alphabetUpperCase ! k \<noteq> CHR ''='') [0..<16]"
    by code_simp
  then show ?thesis
    by (simp add: alphabet_ok_def list_all_iff alphabetUpperCase_def)
qed

lemma hex_lower_alphabet_ok: "alphabet_ok alphabetLowerCase hex_decodeMap"
proof -
  have "list_all (\<lambda>k. hex_decodeMap (alphabetLowerCase ! k) = Some k \<and>
          alphabetLowerCase ! k \<noteq> CHR ''='') [0..<16]"
    by code_simp
  then show ?thesis
    by (simp add: alphabet_ok_def list_all_iff alphabetLowerCase_def)
qed

lemma alphabet_lengths:
  "length alphabetUpperCase = 16" "length alphabetLowerCase = 16"
  "length base32UpperCaseAlphabet = 32" "length base32LowerCaseAlphabet = 32"
  "length base64Alphabet = 64" "length base64urlAlphabet = 64"
  by (simp_all add: alphabetUpperCase_def alphabetLowerCase_def base32UpperCaseAlphabet_def
      base32LowerCaseAlphabet_def base64Alphabet_def base64urlAlphabet_def)

lemma hex_roundtrip:
  assumes "alphabet_ok alphabet hex_decodeMap" "length alphabet = 16"
  shows "decodeHex (encodeHex_loop alphabet data []) = Inr data"
  using decodeHex_loop_text [OF assms, of 0 data]
  by (simp add: decodeHex_def encodeHex_loop_text [OF assms(2)] length_hex_text)

subsection \<open>Lengths of encoded text\<close>

lemma ceiling_nat_div:
  fixes n k :: nat
  assumes "0 < k"
  shows "\<lceil>real n / real k\<rceil> = int ((n + (k - 1)) div k)"
proof (rule ceiling_unique)
  define q where "q = (n + (k - 1)) div k"
  define r where "r = (n + (k - 1)) mod k"
  have e: "n + (k - 1) = q * k + r" and r: "r < k"
    using assms by (simp_all add: q_def r_def)
  have kpos: "0 < real k" using assms by simp
  have "real n \<le> real q * real k"
  proof -
    have "n \<le> q * k" using e r by linarith
    then show ?thesis by (metis of_nat_le_iff of_nat_mult)
  qed
  then show "real n / real k \<le> of_int (int q)"
    using kpos by (simp add: divide_le_eq)
  have "real q * real k < real n + real k"
  proof -
    have "q * k < n + k" using e r assms by linarith
    then show ?thesis by (metis of_nat_less_iff of_nat_mult of_nat_add)
  qed
  then show "of_int (int q) - 1 < real n / real k"
    using kpos by (simp add: less_divide_eq algebra_simps)
qed

lemma base64_length_padded:
  assumes "length alphabet = 64"
  shows "length (encodeBase64_internal bytes alphabet Include) = 4 * ((length bytes + 2) div 3)"
proof (induction bytes rule: chunk3_induct)
  case (Three a b c rest)
  have "(length (a # b # c # rest) + 2) div 3 = (length rest + 2) div 3 + 1"
    using div_add_self2 [of 3 "length rest + 2"] by (simp add: ac_simps)
  with Three show ?case
    by (simp add: encodeBase64_internal_3 [OF assms])
qed (simp_all add: encodeBase64_internal_Nil encodeBase64_internal_1 [OF assms]
      encodeBase64_internal_2 [OF assms])

lemma base64_length_unpadded:
  assumes "length alphabet = 64"
  shows "length (encodeBase64_internal bytes alphabet NoPadding) = (8 * length bytes + 5) div 6"
  by (induction bytes rule: chunk3_induct)
    (simp_all add: encodeBase64_internal_Nil encodeBase64_internal_1 [OF assms]
      encodeBase64_internal_2 [OF assms] encodeBase64_internal_3 [OF assms])

lemma base32_length_padded:
  assumes "length alphabet = 32"
  shows "length (encodeBase32_internal bytes alphabet Include) = 8 * ((length bytes + 4) div 5)"
proof (induction bytes rule: chunk5_induct)
  case (Five a b c d e rest)
  have "(length (a # b # c # d # e # rest) + 4) div 5 = (length rest + 4) div 5 + 1"
    using div_add_self2 [of 5 "length rest + 4"] by (simp add: ac_simps)
  with Five show ?case
    by (simp add: encodeBase32_internal_5 [OF assms])
qed (simp_all add: encodeBase32_internal_Nil encodeBase32_internal_1 [OF assms]
      encodeBase32_internal_2 [OF assms] encodeBase32_internal_3 [OF assms]
      encodeBase32_internal_4 [OF assms])

lemma base32_length_unpadded:
  assumes "length alphabet = 32"
  shows "length (encodeBase32_internal bytes alphabet NoPadding) = (8 * length bytes + 4) div 5"
  by (induction bytes rule: chunk5_induct)
    (simp_all add: encodeBase32_internal_Nil encodeBase32_internal_1 [OF assms]
      encodeBase32_internal_2 [OF assms] encodeBase32_internal_3 [OF assms]
      encodeBase32_internal_4 [OF assms] encodeBase32_internal_5 [OF assms])

lemma hex_length:
  assumes "length alphabet = 16"
  shows "length (encodeHex_loop alphabet data []) = 2 * length data"
  by (simp add: encodeHex_loop_text [OF assms] length_hex_text)

subsection \<open>The last data character of encoded text\<close>

lemma unat_ucast_byte: "unat (ucast (w :: byte) :: int32) = unat w"
proof -
  have "unat w < 2 ^ 8"
    using unsigned_less [of w, where 'a = nat] by simp
  then have "unat w < 2 ^ 32"
    by simp
  then show ?thesis
    by (simp add: unsigned_ucast_eq take_bit_nat_eq_self)
qed

lemma base64_tail_index_1:
  "unat (push_bit 4 (base64_buffer [a]) AND 0x3f) = unat (push_bit 4 (take_bit 2 a))"
proof -
  have "push_bit 4 (base64_buffer [a]) AND 0x3f = (ucast (push_bit 4 (take_bit 2 a)) :: int32)"
    unfolding m6 base64_buffer_def
    by (rule bit_word_eqI) (auto simp add: bit_simps dest: bit_imp_le_length)
  then show ?thesis by (simp only: unat_ucast_byte)
qed

lemma base64_tail_index_2:
  "unat (push_bit 2 (base64_buffer [a, b]) AND 0x3f) = unat (push_bit 2 (take_bit 4 b))"
proof -
  have "push_bit 2 (base64_buffer [a, b]) AND 0x3f =
      (ucast (push_bit 2 (take_bit 4 b)) :: int32)"
    unfolding m6 base64_buffer_def
    by (rule bit_word_eqI) (auto simp add: bit_simps dest: bit_imp_le_length)
  then show ?thesis by (simp only: unat_ucast_byte)
qed

lemma base64_unpadded_nonempty:
  "length alphabet = 64 \<Longrightarrow> bytes \<noteq> [] \<Longrightarrow>
     encodeBase64_internal bytes alphabet NoPadding \<noteq> []"
  using base64_length_unpadded [of alphabet bytes] by (cases bytes) auto

lemma base64_last_data_character:
  assumes "length alphabet = 64" "8 * length bytes mod 6 \<noteq> 0"
  shows "last (encodeBase64_internal bytes alphabet NoPadding) =
     alphabet ! unat (push_bit (6 - 8 * length bytes mod 6)
                        (take_bit (8 * length bytes mod 6) (last bytes)))"
  using assms(2)
proof (induction bytes rule: chunk3_induct)
  case Nil
  then show ?case by simp
next
  case (One a)
  show ?case
    by (simp add: encodeBase64_internal_1 [OF assms(1)] base64_tail_index_1)
next
  case (Two a b)
  show ?case
    by (simp add: encodeBase64_internal_2 [OF assms(1)] base64_tail_index_2)
next
  case (Three a b c rest)
  have m: "8 * length (a # b # c # rest) mod 6 = 8 * length rest mod 6"
    by simp presburger
  then have ne: "rest \<noteq> []"
    using Three.prems by auto
  from Three.IH Three.prems m have
    "last (encodeBase64_internal rest alphabet NoPadding) =
       alphabet ! unat (push_bit (6 - 8 * length rest mod 6)
                          (take_bit (8 * length rest mod 6) (last rest)))"
    by simp
  then show ?case
    unfolding m
    using ne base64_unpadded_nonempty [OF assms(1) ne]
    by (simp add: encodeBase64_internal_3 [OF assms(1)])
qed

lemma base64_padded_unpadded:
  assumes "length alphabet = 64"
  shows "\<exists>m. encodeBase64_internal bytes alphabet Include =
     encodeBase64_internal bytes alphabet NoPadding @ replicate m CHR ''=''"
proof (induction bytes rule: chunk3_induct)
  case Nil
  show ?case by (simp add: encodeBase64_internal_Nil)
next
  case (One a)
  show ?case
    by (rule exI [of _ 2]) (simp add: encodeBase64_internal_1 [OF assms] numeral_2_eq_2)
next
  case (Two a b)
  show ?case
    by (rule exI [of _ 1]) (simp add: encodeBase64_internal_2 [OF assms])
next
  case (Three a b c rest)
  then show ?case
    by (simp add: encodeBase64_internal_3 [OF assms])
qed

lemma base32_tail_index_1:
  "base32_index (base32_aligned [a]) 0 = unat (push_bit 2 (take_bit 3 a))"
proof -
  have "base32_aligned [a] AND 0x1f = uint (push_bit 2 (take_bit 3 a))"
    unfolding m5i base32_aligned_def encodeBase32_align_def base32_buffer_def
    by (rule bit_eqI) (auto simp add: bit_simps bit_0 simp del: push_bit_Suc dest: bit_imp_le_length)
  then show ?thesis by (simp add: base32_index_def)
qed

lemma base32_tail_index_2:
  "base32_index (base32_aligned [a, b]) 0 = unat (push_bit 4 (take_bit 1 b))"
proof -
  have "base32_aligned [a, b] AND 0x1f = uint (push_bit 4 (take_bit 1 b))"
    unfolding m5i base32_aligned_def encodeBase32_align_def base32_buffer_def
    by (rule bit_eqI) (auto simp add: bit_simps bit_0 simp del: push_bit_Suc dest: bit_imp_le_length)
  then show ?thesis by (simp add: base32_index_def)
qed

lemma base32_tail_index_3:
  "base32_index (base32_aligned [a, b, c]) 0 = unat (push_bit 1 (take_bit 4 c))"
proof -
  have "base32_aligned [a, b, c] AND 0x1f = uint (push_bit 1 (take_bit 4 c))"
    unfolding m5i base32_aligned_def encodeBase32_align_def base32_buffer_def
    by (rule bit_eqI) (auto simp add: bit_simps bit_0 simp del: push_bit_Suc dest: bit_imp_le_length)
  then show ?thesis by (simp add: base32_index_def)
qed

lemma base32_tail_index_4:
  "base32_index (base32_aligned [a, b, c, d]) 0 = unat (push_bit 3 (take_bit 2 d))"
proof -
  have "base32_aligned [a, b, c, d] AND 0x1f = uint (push_bit 3 (take_bit 2 d))"
    unfolding m5i base32_aligned_def encodeBase32_align_def base32_buffer_def
    by (rule bit_eqI) (auto simp add: bit_simps bit_0 simp del: push_bit_Suc dest: bit_imp_le_length)
  then show ?thesis by (simp add: base32_index_def)
qed

lemma base32_unpadded_nonempty:
  "length alphabet = 32 \<Longrightarrow> bytes \<noteq> [] \<Longrightarrow>
     encodeBase32_internal bytes alphabet NoPadding \<noteq> []"
  using base32_length_unpadded [of alphabet bytes] by (cases bytes) auto

lemma base32_last_data_character:
  assumes "length alphabet = 32" "8 * length bytes mod 5 \<noteq> 0"
  shows "last (encodeBase32_internal bytes alphabet NoPadding) =
     alphabet ! unat (push_bit (5 - 8 * length bytes mod 5)
                        (take_bit (8 * length bytes mod 5) (last bytes)))"
  using assms(2)
proof (induction bytes rule: chunk5_induct)
  case Nil
  then show ?case by simp
next
  case (One a)
  show ?case
    by (simp add: encodeBase32_internal_1 [OF assms(1)] base32_tail_index_1)
next
  case (Two a b)
  show ?case
    by (simp add: encodeBase32_internal_2 [OF assms(1)] base32_tail_index_2)
next
  case (Three a b c)
  show ?case
    by (simp add: encodeBase32_internal_3 [OF assms(1)] base32_tail_index_3)
next
  case (Four a b c d)
  show ?case
    by (simp add: encodeBase32_internal_4 [OF assms(1)] base32_tail_index_4)
next
  case (Five a b c d e rest)
  have m: "8 * length (a # b # c # d # e # rest) mod 5 = 8 * length rest mod 5"
    by simp presburger
  then have ne: "rest \<noteq> []"
    using Five.prems by auto
  from Five.IH Five.prems m have
    "last (encodeBase32_internal rest alphabet NoPadding) =
       alphabet ! unat (push_bit (5 - 8 * length rest mod 5)
                          (take_bit (8 * length rest mod 5) (last rest)))"
    by simp
  then show ?case
    unfolding m
    using ne base32_unpadded_nonempty [OF assms(1) ne]
    by (simp add: encodeBase32_internal_5 [OF assms(1)])
qed

lemma base32_padded_unpadded:
  assumes "length alphabet = 32"
  shows "\<exists>m. encodeBase32_internal bytes alphabet Include =
     encodeBase32_internal bytes alphabet NoPadding @ replicate m CHR ''=''"
proof (induction bytes rule: chunk5_induct)
  case Nil
  show ?case by (simp add: encodeBase32_internal_Nil)
next
  case (One a)
  show ?case
    by (rule exI [of _ 6]) (simp add: encodeBase32_internal_1 [OF assms] eval_nat_numeral)
next
  case (Two a b)
  show ?case
    by (rule exI [of _ 4]) (simp add: encodeBase32_internal_2 [OF assms] eval_nat_numeral)
next
  case (Three a b c)
  show ?case
    by (rule exI [of _ 3]) (simp add: encodeBase32_internal_3 [OF assms] eval_nat_numeral)
next
  case (Four a b c d)
  show ?case
    by (rule exI [of _ 1]) (simp add: encodeBase32_internal_4 [OF assms])
next
  case (Five a b c d e rest)
  then show ?case
    by (simp add: encodeBase32_internal_5 [OF assms])
qed

lemma base32_single_byte_second_character:
  assumes "length alphabet = 32"
  shows "encodeBase32_internal [b] alphabet padding ! 1 =
     alphabet ! nat (push_bit 2 (uint b) AND 0x1f)"
  by (simp add: encodeBase32_internal_1 [OF assms] base32_index_def base32_aligned_def
      encodeBase32_align_def base32_buffer_def)

subsection \<open>The first window that fails decides the error\<close>

lemma decodeBase64_short_window_first:
  assumes "4 dvd w" "w < length encoded"
    and "decodeBase64_chars encoded decodeMap padding w = Inr (chunk, bitsRead)"
    and "bitsRead < 24"
    and "\<not> ((bitsRead = 12 \<or> bitsRead = 18) \<and> take_bit (24 - 8 * (bitsRead div 8)) chunk = 0)"
    and "\<forall>e. decodeBase64_internal (take w encoded) decodeMap padding = Inl e
           \<longrightarrow> e = InvalidPadding"
  shows "decodeBase64_internal encoded decodeMap padding = Inl InvalidPadding"
proof -
  have "decodeBase64_bad_padding chunk bitsRead"
    using assms(4,5) by (simp add: decodeBase64_bad_padding_iff)
  then have win: "decodeBase64_window encoded decodeMap padding w = Inl InvalidPadding"
    by (simp add: decodeBase64_window_def assms(3))
  show ?thesis
    using assms(6) by (intro decodeBase64_window_error(2) [OF assms(1,2) win]) blast
qed

lemma decodeBase32_short_window_first:
  assumes "8 dvd w" "w < length encoded"
    and "decodeBase32_chars encoded decodeMap padding w = Inr (chunk, bitsRead)"
    and "bitsRead < 40"
    and "\<not> ((bitsRead = 10 \<or> bitsRead = 20 \<or> bitsRead = 25 \<or> bitsRead = 35)
            \<and> take_bit (40 - 8 * (bitsRead div 8)) chunk = 0)"
    and "\<forall>e. decodeBase32_internal (take w encoded) decodeMap padding = Inl e
           \<longrightarrow> e = InvalidPadding"
  shows "decodeBase32_internal encoded decodeMap padding = Inl InvalidPadding"
proof -
  have "decodeBase32_bad_padding chunk bitsRead"
    using assms(4,5) by (simp add: decodeBase32_bad_padding_iff)
  then have win: "decodeBase32_window encoded decodeMap padding w = Inl InvalidPadding"
    by (simp add: decodeBase32_window_def assms(3))
  show ?thesis
    using assms(6) by (intro decodeBase32_window_error(2) [OF assms(1,2) win]) blast
qed

lemma decodeBase64_not_in_map_first:
  assumes "q < length encoded" "encoded ! q \<noteq> CHR ''=''" "decodeMap (encoded ! q) = None"
    and "\<forall>k. q - q mod 4 \<le> k \<and> k < q \<longrightarrow> encoded ! k \<noteq> CHR ''=''"
    and "\<forall>e. decodeBase64_internal (take (q - q mod 4) encoded) decodeMap padding = Inl e
           \<longrightarrow> e = InvalidCharacter"
  shows "decodeBase64_internal encoded decodeMap padding = Inl InvalidCharacter"
proof -
  define w where "w = q - q mod 4"
  have w: "4 dvd w" "w \<le> q" "q mod 4 < 4" "w + q mod 4 = q"
    unfolding w_def using window_start [of 4 q] by simp_all
  then have lt: "w < length encoded"
    using assms(1) by linarith
  have nopad: "encoded ! k \<noteq> CHR ''=''" if "w \<le> k" "k \<le> q" for k
    using assms(2,4) that unfolding w_def by (cases "k = q") auto
  let ?P = "\<lambda>k. w \<le> k \<and> decodeMap (encoded ! k) = None"
  define k0 where "k0 = (LEAST k. ?P k)"
  have Pq: "?P q" using w(2) assms(3) by simp
  have k0: "w \<le> k0" "decodeMap (encoded ! k0) = None"
    unfolding k0_def using LeastI [of ?P q] Pq by simp_all
  have k0q: "k0 \<le> q"
    unfolding k0_def using Least_le [of ?P q] Pq by simp
  have data: "decodeMap (encoded ! k) \<noteq> None" if "w \<le> k" "k < k0" for k
    using not_less_Least [of k ?P] that unfolding k0_def by simp
  define j0 where "j0 = k0 - w"
  have j0: "j0 < 4" "w + j0 = k0"
    unfolding j0_def using k0(1) k0q w(3,4) by linarith+
  show ?thesis
  proof (rule decodeBase64_first_error_at [OF w(1) lt j0(1)])
    fix s
    have "\<not> (0 < j0 \<and> str_at encoded (w + j0 - 1) = Some CHR ''='')"
    proof
      assume a: "0 < j0 \<and> str_at encoded (w + j0 - 1) = Some CHR ''=''"
      then have "w \<le> w + j0 - 1" and "w + j0 - 1 \<le> q"
        using j0(2) k0q by linarith+
      from nopad [OF this] a show False
        by (simp add: str_at_def split: if_splits)
    qed
    moreover have "w + j0 < length encoded" "encoded ! (w + j0) \<noteq> CHR ''=''"
      "decodeMap (encoded ! (w + j0)) = None"
      using j0(2) k0 k0q assms(1) nopad [of k0] by simp_all
    ultimately show "decodeBase64_char encoded decodeMap padding w j0 s = Inl InvalidCharacter"
      using decodeBase64_char_not_in_map [of w j0 encoded decodeMap padding s] by simp
  next
    fix j s e
    assume j: "j < j0"
      and e: "decodeBase64_char encoded decodeMap padding w j s = Inl e"
    have in_range: "w + j < k0"
      using j j0(2) by linarith
    have prev: "j = 0 \<or> encoded ! (w + j - 1) \<noteq> CHR ''=''"
    proof (cases "j = 0")
      case False
      then have "w \<le> w + j - 1" "w + j - 1 \<le> q"
        using in_range k0q by linarith+
      from nopad [OF this] show ?thesis by simp
    qed simp
    have "w + j < length encoded" "encoded ! (w + j) \<noteq> CHR ''=''"
      using in_range k0q assms(1) nopad [of "w + j"] by simp_all
    then have "\<exists>s'. decodeBase64_char encoded decodeMap padding w j s = Inr s'"
      using in_range data [of "w + j"] prev
      by (intro decodeBase64_char_data) simp_all
    with e show "e = InvalidCharacter" by simp
  next
    fix e
    assume "decodeBase64_internal (take w encoded) decodeMap padding = Inl e"
    with assms(5) show "e = InvalidCharacter"
      unfolding w_def by blast
  qed
qed

subsection \<open>Characters of the other Base64 alphabet\<close>

lemma base64DecodeMap_crossover:
  "base64DecodeMap CHR ''-'' = None" "base64DecodeMap CHR ''_'' = None"
  "base64DecodeMap CHR ''='' = None"
  by (simp_all add: base64DecodeMap_def)

lemma base64urlDecodeMap_crossover:
  "base64urlDecodeMap CHR ''+'' = None" "base64urlDecodeMap CHR ''/'' = None"
  "base64urlDecodeMap CHR ''='' = None"
  by (simp_all add: base64urlDecodeMap_def)

lemma decodeBase64_crossover_first:
  assumes "q < length encoded" "decodeMap (encoded ! q) = None" "encoded ! q \<noteq> CHR ''=''"
  shows "\<exists>e. decodeBase64_internal encoded decodeMap padding = Inl e"
    and "(\<forall>k. q - q mod 4 \<le> k \<and> k < q \<longrightarrow> encoded ! k \<noteq> CHR ''='')
         \<and> (\<forall>e. decodeBase64_internal (take (q - q mod 4) encoded) decodeMap padding = Inl e
               \<longrightarrow> e = InvalidCharacter)
       \<Longrightarrow> decodeBase64_internal encoded decodeMap padding = Inl InvalidCharacter"
proof -
  show "\<exists>e. decodeBase64_internal encoded decodeMap padding = Inl e"
    using decodeBase64_not_in_map [of q encoded decodeMap padding] assms by blast
next
  assume h: "(\<forall>k. q - q mod 4 \<le> k \<and> k < q \<longrightarrow> encoded ! k \<noteq> CHR ''='')
         \<and> (\<forall>e. decodeBase64_internal (take (q - q mod 4) encoded) decodeMap padding = Inl e
               \<longrightarrow> e = InvalidCharacter)"
  show "decodeBase64_internal encoded decodeMap padding = Inl InvalidCharacter"
    by (rule decodeBase64_not_in_map_first [OF assms(1) assms(3) assms(2)
          h [THEN conjunct1] h [THEN conjunct2]])
qed

section \<open>The claims\<close>

text \<open>
  Claim C1. Decoding undoes encoding, for every byte sequence and every pairing of an
  encoder with its decoder: either hexadecimal encoder with \<^verbatim>\<open>decodeHex\<close>, a padded
  encoder with the decoder that requires padding, an unpadded encoder with the decoder
  that ignores padding.
\<close>

theorem decode_encode_roundtrip:
  "decodeHex (encodeHexUpperCase B) = Inr B
   \<and> decodeHex (encodeHexLowerCase B) = Inr B
   \<and> decodeBase32 (encodeBase32UpperCase B) = Inr B
   \<and> decodeBase32 (encodeBase32LowerCase B) = Inr B
   \<and> decodeBase32 (encodeBase32 B) = Inr B
   \<and> decodeBase32IgnorePadding (encodeBase32UpperCaseNoPadding B) = Inr B
   \<and> decodeBase32IgnorePadding (encodeBase32LowerCaseNoPadding B) = Inr B
   \<and> decodeBase32IgnorePadding (encodeBase32NoPadding B) = Inr B
   \<and> decodeBase64 (encodeBase64 B) = Inr B
   \<and> decodeBase64IgnorePadding (encodeBase64NoPadding B) = Inr B
   \<and> decodeBase64url (encodeBase64url B) = Inr B
   \<and> decodeBase64urlIgnorePadding (encodeBase64urlNoPadding B) = Inr B"
  unfolding encodeHexUpperCase_def encodeHexLowerCase_def
    decodeBase32_def decodeBase32IgnorePadding_def encodeBase32_def encodeBase32NoPadding_def
    encodeBase32UpperCase_def encodeBase32LowerCase_def
    encodeBase32UpperCaseNoPadding_def encodeBase32LowerCaseNoPadding_def
    decodeBase64_def decodeBase64IgnorePadding_def decodeBase64url_def
    decodeBase64urlIgnorePadding_def encodeBase64_def encodeBase64NoPadding_def
    encodeBase64url_def encodeBase64urlNoPadding_def
  by (intro conjI hex_roundtrip base32_roundtrip_padded base32_roundtrip_unpadded
      base64_roundtrip_padded base64_roundtrip_unpadded
      hex_upper_alphabet_ok hex_lower_alphabet_ok base32_upper_alphabet_ok
      base32_lower_alphabet_ok base64_alphabet_ok base64url_alphabet_ok alphabet_lengths)

text \<open>
  Claim C2, as stated, does not hold: a window that is short in a way the decoder rejects
  does not always give \<^verbatim>\<open>"Invalid padding"\<close>. The decoder reports the first error it
  meets. In \<^verbatim>\<open>"!AAAA==="\<close> the second window has read 6 bits, but the first window has
  already failed with \<^verbatim>\<open>"Invalid character"\<close>. In \<^verbatim>\<open>"A"\<close>, decoded in the mode that
  requires padding, the loop over the characters of the window fails at position 1, after
  the end of the input, with \<^verbatim>\<open>"Invalid character"\<close>, before the number of bits is
  tested.
\<close>

theorem short_window_counterexample:
  "4 dvd (4 :: nat) \<and> 4 < length ''!AAAA===''
   \<and> decodeBase64_chars ''!AAAA==='' base64DecodeMap Required 4 = Inr (0, 6)
   \<and> (6 :: nat) < 24 \<and> (6 :: nat) \<noteq> 12 \<and> (6 :: nat) \<noteq> 18
   \<and> decodeBase64 ''!AAAA==='' = Inl InvalidCharacter
   \<and> decodeBase64 ''!AAAA==='' \<noteq> Inl InvalidPadding
   \<and> decodeBase64_chars ''A'' base64DecodeMap Required 0 = Inl InvalidCharacter
   \<and> decodeBase64 ''A'' = Inl InvalidCharacter
   \<and> decodeBase64 ''A'' \<noteq> Inl InvalidPadding"
  by code_simp

text \<open>
  Claim C2, amended. Let the loop over the characters of the window that starts at \<open>w\<close>
  finish without an error, having read fewer bits than the full window width (24 for
  Base64, 40 for Base32). Unless the number of bits read is one of 12, 18 (Base64) or
  10, 20, 25, 35 (Base32) and the bits of the accumulator below the last complete byte
  are all zero, the decoder fails, for every decode map and both padding modes; and the
  error is \<^verbatim>\<open>"Invalid padding"\<close> unless the windows before \<open>w\<close> fail with another
  error. \<^const>\<open>decodeBase64_chars\<close> and \<^const>\<open>decodeBase32_chars\<close> are the loops over the
  characters of one window, which return the accumulator and the number of bits read.
\<close>

theorem short_window_validation:
  "(4 dvd w \<and> w < length encoded
      \<and> decodeBase64_chars encoded decodeMap padding w = Inr (chunk, bitsRead)
      \<and> bitsRead < 24
      \<and> \<not> ((bitsRead = 12 \<or> bitsRead = 18) \<and> take_bit (24 - 8 * (bitsRead div 8)) chunk = 0)
    \<longrightarrow> (\<exists>e. decodeBase64_internal encoded decodeMap padding = Inl e)
      \<and> ((\<forall>e. decodeBase64_internal (take w encoded) decodeMap padding = Inl e
                \<longrightarrow> e = InvalidPadding)
           \<longrightarrow> decodeBase64_internal encoded decodeMap padding = Inl InvalidPadding))
   \<and> (8 dvd w32 \<and> w32 < length encoded32
      \<and> decodeBase32_chars encoded32 decodeMap32 padding32 w32 = Inr (chunk32, bitsRead32)
      \<and> bitsRead32 < 40
      \<and> \<not> ((bitsRead32 = 10 \<or> bitsRead32 = 20 \<or> bitsRead32 = 25 \<or> bitsRead32 = 35)
             \<and> take_bit (40 - 8 * (bitsRead32 div 8)) chunk32 = 0)
    \<longrightarrow> (\<exists>e. decodeBase32_internal encoded32 decodeMap32 padding32 = Inl e)
      \<and> ((\<forall>e. decodeBase32_internal (take w32 encoded32) decodeMap32 padding32 = Inl e
                \<longrightarrow> e = InvalidPadding)
           \<longrightarrow> decodeBase32_internal encoded32 decodeMap32 padding32 = Inl InvalidPadding))"
proof (intro conjI impI)
  assume h: "4 dvd w \<and> w < length encoded
      \<and> decodeBase64_chars encoded decodeMap padding w = Inr (chunk, bitsRead)
      \<and> bitsRead < 24
      \<and> \<not> ((bitsRead = 12 \<or> bitsRead = 18) \<and> take_bit (24 - 8 * (bitsRead div 8)) chunk = 0)"
  then have a: "4 dvd w" "w < length encoded"
    "decodeBase64_chars encoded decodeMap padding w = Inr (chunk, bitsRead)" "bitsRead < 24"
    "\<not> ((bitsRead = 12 \<or> bitsRead = 18) \<and> take_bit (24 - 8 * (bitsRead div 8)) chunk = 0)"
    by blast+
  show "\<exists>e. decodeBase64_internal encoded decodeMap padding = Inl e"
    by (rule decodeBase64_short_window(1) [OF a])
  show "decodeBase64_internal encoded decodeMap padding = Inl InvalidPadding"
    if "\<forall>e. decodeBase64_internal (take w encoded) decodeMap padding = Inl e
          \<longrightarrow> e = InvalidPadding"
    by (rule decodeBase64_short_window_first [OF a that])
next
  assume h: "8 dvd w32 \<and> w32 < length encoded32
      \<and> decodeBase32_chars encoded32 decodeMap32 padding32 w32 = Inr (chunk32, bitsRead32)
      \<and> bitsRead32 < 40
      \<and> \<not> ((bitsRead32 = 10 \<or> bitsRead32 = 20 \<or> bitsRead32 = 25 \<or> bitsRead32 = 35)
             \<and> take_bit (40 - 8 * (bitsRead32 div 8)) chunk32 = 0)"
  then have a: "8 dvd w32" "w32 < length encoded32"
    "decodeBase32_chars encoded32 decodeMap32 padding32 w32 = Inr (chunk32, bitsRead32)"
    "bitsRead32 < 40"
    "\<not> ((bitsRead32 = 10 \<or> bitsRead32 = 20 \<or> bitsRead32 = 25 \<or> bitsRead32 = 35)
             \<and> take_bit (40 - 8 * (bitsRead32 div 8)) chunk32 = 0)"
    by blast+
  show "\<exists>e. decodeBase32_internal encoded32 decodeMap32 padding32 = Inl e"
    by (rule decodeBase32_short_window(1) [OF a])
  show "decodeBase32_internal encoded32 decodeMap32 padding32 = Inl InvalidPadding"
    if "\<forall>e. decodeBase32_internal (take w32 encoded32) decodeMap32 padding32 = Inl e
          \<longrightarrow> e = InvalidPadding"
    by (rule decodeBase32_short_window_first [OF a that])
qed

theorem short_window_validation_witness:
  "4 dvd (4 :: nat) \<and> 4 < length ''AAAAAB==''
   \<and> decodeBase64_chars ''AAAAAB=='' base64DecodeMap Required 4 = Inr (4096, 12)
   \<and> (12 :: nat) < 24
   \<and> \<not> (((12 :: nat) = 12 \<or> (12 :: nat) = 18)
          \<and> take_bit (24 - 8 * (12 div 8)) (4096 :: int32) = 0)
   \<and> decodeBase64_internal (take 4 ''AAAAAB=='') base64DecodeMap Required = Inr [0, 0, 0]
   \<and> decodeBase64_internal ''AAAAAB=='' base64DecodeMap Required = Inl InvalidPadding
   \<and> 8 dvd (8 :: nat) \<and> 8 < length ''AAAAAAAAAB======''
   \<and> decodeBase32_chars ''AAAAAAAAAB======'' base32DecodeMap Required 8 = Inr (1073741824, 10)
   \<and> (10 :: nat) < 40
   \<and> \<not> (((10 :: nat) = 10 \<or> (10 :: nat) = 20 \<or> (10 :: nat) = 25 \<or> (10 :: nat) = 35)
          \<and> take_bit (40 - 8 * (10 div 8)) (1073741824 :: int) = 0)
   \<and> decodeBase32_internal (take 8 ''AAAAAAAAAB======'') base32DecodeMap Required
        = Inr [0, 0, 0, 0, 0]
   \<and> decodeBase32_internal ''AAAAAAAAAB======'' base32DecodeMap Required = Inl InvalidPadding"
proof -
  have h64: "4 dvd (4 :: nat) \<and> 4 < length ''AAAAAB==''
      \<and> decodeBase64_chars ''AAAAAB=='' base64DecodeMap Required 4 = Inr (4096, 12)
      \<and> (12 :: nat) < 24
      \<and> \<not> (((12 :: nat) = 12 \<or> (12 :: nat) = 18)
             \<and> take_bit (24 - 8 * (12 div 8)) (4096 :: int32) = 0)"
    by code_simp
  have p64: "decodeBase64_internal (take 4 ''AAAAAB=='') base64DecodeMap Required = Inr [0, 0, 0]"
    by code_simp
  have h32: "8 dvd (8 :: nat) \<and> 8 < length ''AAAAAAAAAB======''
      \<and> decodeBase32_chars ''AAAAAAAAAB======'' base32DecodeMap Required 8
           = Inr (1073741824, 10)
      \<and> (10 :: nat) < 40
      \<and> \<not> (((10 :: nat) = 10 \<or> (10 :: nat) = 20 \<or> (10 :: nat) = 25 \<or> (10 :: nat) = 35)
             \<and> take_bit (40 - 8 * (10 div 8)) (1073741824 :: int) = 0)"
    by code_simp
  have p32: "decodeBase32_internal (take 8 ''AAAAAAAAAB======'') base32DecodeMap Required
      = Inr [0, 0, 0, 0, 0]"
    by code_simp
  note t = short_window_validation [where w = 4 and encoded = "''AAAAAB==''"
      and decodeMap = base64DecodeMap and padding = Required and chunk = 4096
      and bitsRead = 12 and ?w32.0 = 8 and ?encoded32.0 = "''AAAAAAAAAB======''"
      and ?decodeMap32.0 = base32DecodeMap and ?padding32.0 = Required
      and ?chunk32.0 = 1073741824 and ?bitsRead32.0 = 10]
  have c64: "decodeBase64_internal ''AAAAAB=='' base64DecodeMap Required = Inl InvalidPadding"
    using t [THEN conjunct1, rule_format, OF h64, THEN conjunct2, rule_format] p64 by simp
  have c32: "decodeBase32_internal ''AAAAAAAAAB======'' base32DecodeMap Required
      = Inl InvalidPadding"
    using t [THEN conjunct2, rule_format, OF h32, THEN conjunct2, rule_format] p32 by simp
  show ?thesis
    by (intro conjI h64 [THEN conjunct1] h32 [THEN conjunct1] p64 p32 c64 c32)
      (use h64 h32 in blast)+
qed

text \<open>
  Claim C3, as stated, does not hold: a pad character followed in its window by a
  character of the alphabet does not always give \<^verbatim>\<open>"Invalid padding"\<close>. The decoder
  reports the first error it meets, and in \<^verbatim>\<open>"!=AA"\<close> this is the character \<^verbatim>\<open>"!"\<close>
  before the pad, which gives \<^verbatim>\<open>"Invalid character"\<close>.
\<close>

theorem ordering_rule_counterexample:
  "(1 :: nat) < 2 \<and> (2 :: nat) < 4 \<and> 2 < length ''!=AA''
   \<and> ''!=AA'' ! 1 = CHR ''='' \<and> ''!=AA'' ! 2 \<noteq> CHR ''=''
   \<and> base64DecodeMap (''!=AA'' ! 2) = Some 0
   \<and> decodeBase64 ''!=AA'' = Inl InvalidCharacter
   \<and> decodeBase64 ''!=AA'' \<noteq> Inl InvalidPadding"
  by code_simp

text \<open>
  Claim C3, amended. When a pad character stands at position \<open>j\<close> of a window and a
  character other than the pad at a later position \<open>j'\<close> of the same window, the decoder
  fails, for every decode map and both padding modes; and when every character before
  that pad is a pad or a character of the decode map, the error is
  \<^verbatim>\<open>"Invalid padding"\<close>. (After the end of the input there is no later character, so
  in the mode that ignores padding only a pad character can come before one.)
\<close>

theorem ordering_rule:
  "(4 dvd w \<and> j < j' \<and> j' < 4 \<and> w + j' < length encoded
      \<and> encoded ! (w + j) = CHR ''='' \<and> encoded ! (w + j') \<noteq> CHR ''=''
    \<longrightarrow> (\<exists>e. decodeBase64_internal encoded decodeMap padding = Inl e)
      \<and> ((\<forall>k < w + j. encoded ! k = CHR ''='' \<or> decodeMap (encoded ! k) \<noteq> None)
           \<longrightarrow> decodeBase64_internal encoded decodeMap padding = Inl InvalidPadding))
   \<and> (8 dvd w32 \<and> j32 < j32' \<and> j32' < 8 \<and> w32 + j32' < length encoded32
      \<and> encoded32 ! (w32 + j32) = CHR ''='' \<and> encoded32 ! (w32 + j32') \<noteq> CHR ''=''
    \<longrightarrow> (\<exists>e. decodeBase32_internal encoded32 decodeMap32 padding32 = Inl e)
      \<and> ((\<forall>k < w32 + j32. encoded32 ! k = CHR ''='' \<or> decodeMap32 (encoded32 ! k) \<noteq> None)
           \<longrightarrow> decodeBase32_internal encoded32 decodeMap32 padding32 = Inl InvalidPadding))"
  using decodeBase64_data_after_pad [of w j j' encoded decodeMap padding]
    decodeBase32_data_after_pad [of w32 j32 j32' encoded32 decodeMap32 padding32]
  by blast

theorem ordering_rule_witness:
  "4 dvd (0 :: nat) \<and> (2 :: nat) < 3 \<and> (3 :: nat) < 4 \<and> 0 + 3 < length ''SG=sbG8=''
   \<and> ''SG=sbG8='' ! (0 + 2) = CHR ''='' \<and> ''SG=sbG8='' ! (0 + 3) \<noteq> CHR ''=''
   \<and> base64DecodeMap (''SG=sbG8='' ! 0) = Some 18 \<and> base64DecodeMap (''SG=sbG8='' ! 1) = Some 6
   \<and> decodeBase64 ''SG=sbG8='' = Inl InvalidPadding
   \<and> 8 dvd (0 :: nat) \<and> (1 :: nat) < 2 \<and> (2 :: nat) < 8 \<and> 0 + 2 < length ''J=SWY3DP''
   \<and> ''J=SWY3DP'' ! (0 + 1) = CHR ''='' \<and> ''J=SWY3DP'' ! (0 + 2) \<noteq> CHR ''=''
   \<and> base32DecodeMap (''J=SWY3DP'' ! 0) = Some 9
   \<and> decodeBase32 ''J=SWY3DP'' = Inl InvalidPadding"
proof -
  have h64: "4 dvd (0 :: nat) \<and> (2 :: nat) < 3 \<and> (3 :: nat) < 4 \<and> 0 + 3 < length ''SG=sbG8=''
      \<and> ''SG=sbG8='' ! (0 + 2) = CHR ''='' \<and> ''SG=sbG8='' ! (0 + 3) \<noteq> CHR ''=''"
    by simp
  have a64: "\<forall>k < 0 + 2. ''SG=sbG8='' ! k = CHR ''='' \<or> base64DecodeMap (''SG=sbG8='' ! k) \<noteq> None"
    by (simp add: base64DecodeMap_def numeral_2_eq_2 less_Suc_eq)
  have h32: "8 dvd (0 :: nat) \<and> (1 :: nat) < 2 \<and> (2 :: nat) < 8 \<and> 0 + 2 < length ''J=SWY3DP''
      \<and> ''J=SWY3DP'' ! (0 + 1) = CHR ''='' \<and> ''J=SWY3DP'' ! (0 + 2) \<noteq> CHR ''=''"
    by simp
  have a32: "\<forall>k < 0 + 1. ''J=SWY3DP'' ! k = CHR ''='' \<or> base32DecodeMap (''J=SWY3DP'' ! k) \<noteq> None"
    by (simp add: base32DecodeMap_def)
  note t = ordering_rule [where w = 0 and j = 2 and j' = 3 and encoded = "''SG=sbG8=''"
      and decodeMap = base64DecodeMap and padding = Required
      and ?w32.0 = 0 and ?j32.0 = 1 and j32' = 2 and ?encoded32.0 = "''J=SWY3DP''"
      and ?decodeMap32.0 = base32DecodeMap and ?padding32.0 = Required]
  have c64: "decodeBase64 ''SG=sbG8='' = Inl InvalidPadding"
    unfolding decodeBase64_def
    using t [THEN conjunct1, rule_format, OF h64, THEN conjunct2, rule_format] a64 by blast
  have c32: "decodeBase32 ''J=SWY3DP'' = Inl InvalidPadding"
    unfolding decodeBase32_def
    using t [THEN conjunct2, rule_format, OF h32, THEN conjunct2, rule_format] a32 by blast
  show ?thesis
    by (intro conjI c64 c32) (use h64 h32 in \<open>simp_all add: base64DecodeMap_def base32DecodeMap_def\<close>)
qed

text \<open>
  Claim C4. \<^verbatim>\<open>decodeBase64("sgvsbg8=")\<close> returns without an error, and the bytes it
  returns are not the bytes of \<^verbatim>\<open>"Hello"\<close>: the Base64 decode map has both cases of a
  letter as keys, with different values.
\<close>

theorem decodeBase64_lowercase_hello:
  "decodeBase64 ''sgvsbg8='' = Inr [178, 11, 236, 110, 15]
   \<and> [178, 11, 236, 110, 15] \<noteq> [72, 101, 108, 108, 111 :: byte]
   \<and> base64DecodeMap CHR ''s'' = Some 44 \<and> base64DecodeMap CHR ''S'' = Some 18"
  by code_simp

text \<open>
  Claim C5. For a byte sequence of length \<open>n\<close>: padded Base64 and Base64url text has
  \<open>4 * \<lceil>n / 3\<rceil>\<close> characters, padded Base32 text has \<open>8 * \<lceil>n / 5\<rceil>\<close>, hexadecimal text
  has \<open>2 * n\<close>, and unpadded text has \<open>\<lceil>8 * n / k\<rceil>\<close> characters for groups of \<open>k\<close>
  bits. Every encoder maps the empty byte sequence to the empty string.
\<close>

theorem encode_lengths:
  "int (length (encodeBase64 bytes)) = 4 * \<lceil>real (length bytes) / 3\<rceil>
   \<and> int (length (encodeBase64url bytes)) = 4 * \<lceil>real (length bytes) / 3\<rceil>
   \<and> int (length (encodeBase32UpperCase bytes)) = 8 * \<lceil>real (length bytes) / 5\<rceil>
   \<and> int (length (encodeBase32LowerCase bytes)) = 8 * \<lceil>real (length bytes) / 5\<rceil>
   \<and> int (length (encodeBase32 bytes)) = 8 * \<lceil>real (length bytes) / 5\<rceil>
   \<and> length (encodeHexUpperCase bytes) = 2 * length bytes
   \<and> length (encodeHexLowerCase bytes) = 2 * length bytes
   \<and> int (length (encodeBase64NoPadding bytes)) = \<lceil>real (8 * length bytes) / 6\<rceil>
   \<and> int (length (encodeBase64urlNoPadding bytes)) = \<lceil>real (8 * length bytes) / 6\<rceil>
   \<and> int (length (encodeBase32UpperCaseNoPadding bytes)) = \<lceil>real (8 * length bytes) / 5\<rceil>
   \<and> int (length (encodeBase32LowerCaseNoPadding bytes)) = \<lceil>real (8 * length bytes) / 5\<rceil>
   \<and> int (length (encodeBase32NoPadding bytes)) = \<lceil>real (8 * length bytes) / 5\<rceil>
   \<and> encodeBase64 [] = [] \<and> encodeBase64NoPadding [] = []
   \<and> encodeBase64url [] = [] \<and> encodeBase64urlNoPadding [] = []
   \<and> encodeBase32UpperCase [] = [] \<and> encodeBase32UpperCaseNoPadding [] = []
   \<and> encodeBase32LowerCase [] = [] \<and> encodeBase32LowerCaseNoPadding [] = []
   \<and> encodeBase32 [] = [] \<and> encodeBase32NoPadding [] = []
   \<and> encodeHexUpperCase [] = [] \<and> encodeHexLowerCase [] = []"
proof -
  have c3: "\<lceil>real n / 3\<rceil> = int ((n + 2) div 3)"
    and c5: "\<lceil>real n / 5\<rceil> = int ((n + 4) div 5)"
    and c6: "\<lceil>real n / 6\<rceil> = int ((n + 5) div 6)" for n :: nat
    using ceiling_nat_div [of 3 n] ceiling_nat_div [of 5 n] ceiling_nat_div [of 6 n]
    by simp_all
  have c86: "\<lceil>8 * real n / 6\<rceil> = int ((8 * n + 5) div 6)"
    and c85: "\<lceil>8 * real n / 5\<rceil> = int ((8 * n + 4) div 5)" for n :: nat
    using c6 [of "8 * n"] c5 [of "8 * n"] by simp_all
  show ?thesis
    unfolding encodeHexUpperCase_def encodeHexLowerCase_def
      encodeBase32_def encodeBase32NoPadding_def
      encodeBase32UpperCase_def encodeBase32LowerCase_def
      encodeBase32UpperCaseNoPadding_def encodeBase32LowerCaseNoPadding_def
      encodeBase64_def encodeBase64NoPadding_def
      encodeBase64url_def encodeBase64urlNoPadding_def
    by (simp only: c3 c5 c86 c85
        base64_length_padded base64_length_unpadded base32_length_padded
        base32_length_unpadded hex_length alphabet_lengths
        encodeBase64_internal_Nil encodeBase32_internal_Nil encodeHex_loop.simps
        of_nat_mult of_nat_numeral simp_thms)
qed

text \<open>
  Claim C6. \<^verbatim>\<open>decodeHex\<close> on a string of odd length throws \<^verbatim>\<open>"Invalid hex string"\<close>,
  whatever the characters of the string are: the length is tested before the loop
  reads any of them.
\<close>

theorem decodeHex_odd_length:
  "odd (length data) \<Longrightarrow> decodeHex data = Inl InvalidHexString"
  by (simp add: decodeHex_def odd_iff_mod_2_eq_one)

theorem decodeHex_odd_length_witness:
  "odd (length ''xyz'') \<and> decodeHex ''xyz'' = Inl InvalidHexString"
  using decodeHex_odd_length [of "''xyz''"] by simp

text \<open>
  Claim C7, as stated, does not hold: a character of the other alphabet in a data
  position does not always give \<^verbatim>\<open>"Invalid character"\<close>. The decoder reports the first
  error it meets. In \<^verbatim>\<open>"A===-AAA"\<close> the character \<^verbatim>\<open>"-"\<close> is the first of its window,
  but the window before it has already failed with \<^verbatim>\<open>"Invalid padding"\<close>.
\<close>

theorem crossover_characters_counterexample:
  "4 < length ''A===-AAA'' \<and> ''A===-AAA'' ! 4 = CHR ''-'' \<and> (4 :: nat) mod 4 = 0
   \<and> decodeBase64 ''A===-AAA'' = Inl InvalidPadding
   \<and> decodeBase64 ''A===-AAA'' \<noteq> Inl InvalidCharacter"
  by code_simp

text \<open>
  Claim C7, amended. \<^verbatim>\<open>decodeBase64\<close> and \<^verbatim>\<open>decodeBase64IgnorePadding\<close> fail on
  every input that contains \<^verbatim>\<open>"-"\<close> or \<^verbatim>\<open>"_"\<close>, and \<^verbatim>\<open>decodeBase64url\<close> and
  \<^verbatim>\<open>decodeBase64urlIgnorePadding\<close> on every input that contains \<^verbatim>\<open>"+"\<close> or
  \<^verbatim>\<open>"/"\<close>. The error is \<^verbatim>\<open>"Invalid character"\<close> when no pad character stands before
  that character in its window, unless the windows before its window fail with another
  error.
\<close>

theorem crossover_characters:
  "(q < length encoded \<and> (encoded ! q = CHR ''-'' \<or> encoded ! q = CHR ''_'')
    \<longrightarrow> (\<exists>e. decodeBase64 encoded = Inl e)
      \<and> (\<exists>e. decodeBase64IgnorePadding encoded = Inl e)
      \<and> ((\<forall>k. q - q mod 4 \<le> k \<and> k < q \<longrightarrow> encoded ! k \<noteq> CHR ''='')
           \<and> (\<forall>e. decodeBase64 (take (q - q mod 4) encoded) = Inl e
                 \<longrightarrow> e = InvalidCharacter)
         \<longrightarrow> decodeBase64 encoded = Inl InvalidCharacter)
      \<and> ((\<forall>k. q - q mod 4 \<le> k \<and> k < q \<longrightarrow> encoded ! k \<noteq> CHR ''='')
           \<and> (\<forall>e. decodeBase64IgnorePadding (take (q - q mod 4) encoded) = Inl e
                 \<longrightarrow> e = InvalidCharacter)
         \<longrightarrow> decodeBase64IgnorePadding encoded = Inl InvalidCharacter))
   \<and> (p < length encodedUrl \<and> (encodedUrl ! p = CHR ''+'' \<or> encodedUrl ! p = CHR ''/'')
    \<longrightarrow> (\<exists>e. decodeBase64url encodedUrl = Inl e)
      \<and> (\<exists>e. decodeBase64urlIgnorePadding encodedUrl = Inl e)
      \<and> ((\<forall>k. p - p mod 4 \<le> k \<and> k < p \<longrightarrow> encodedUrl ! k \<noteq> CHR ''='')
           \<and> (\<forall>e. decodeBase64url (take (p - p mod 4) encodedUrl) = Inl e
                 \<longrightarrow> e = InvalidCharacter)
         \<longrightarrow> decodeBase64url encodedUrl = Inl InvalidCharacter)
      \<and> ((\<forall>k. p - p mod 4 \<le> k \<and> k < p \<longrightarrow> encodedUrl ! k \<noteq> CHR ''='')
           \<and> (\<forall>e. decodeBase64urlIgnorePadding (take (p - p mod 4) encodedUrl) = Inl e
                 \<longrightarrow> e = InvalidCharacter)
         \<longrightarrow> decodeBase64urlIgnorePadding encodedUrl = Inl InvalidCharacter))"
proof (intro conjI impI)
  assume h: "q < length encoded \<and> (encoded ! q = CHR ''-'' \<or> encoded ! q = CHR ''_'')"
  then have n: "base64DecodeMap (encoded ! q) = None" "encoded ! q \<noteq> CHR ''=''"
    using base64DecodeMap_crossover by auto
  from h have q: "q < length encoded" by simp
  note r = decodeBase64_crossover_first [of q encoded base64DecodeMap, OF q n]
  show "\<exists>e. decodeBase64 encoded = Inl e"
    unfolding decodeBase64_def by (rule r(1))
  show "\<exists>e. decodeBase64IgnorePadding encoded = Inl e"
    unfolding decodeBase64IgnorePadding_def by (rule r(1))
  show "decodeBase64 encoded = Inl InvalidCharacter"
    if "(\<forall>k. q - q mod 4 \<le> k \<and> k < q \<longrightarrow> encoded ! k \<noteq> CHR ''='')
      \<and> (\<forall>e. decodeBase64 (take (q - q mod 4) encoded) = Inl e \<longrightarrow> e = InvalidCharacter)"
    using that unfolding decodeBase64_def by (rule r(2))
  show "decodeBase64IgnorePadding encoded = Inl InvalidCharacter"
    if "(\<forall>k. q - q mod 4 \<le> k \<and> k < q \<longrightarrow> encoded ! k \<noteq> CHR ''='')
      \<and> (\<forall>e. decodeBase64IgnorePadding (take (q - q mod 4) encoded) = Inl e
            \<longrightarrow> e = InvalidCharacter)"
    using that unfolding decodeBase64IgnorePadding_def by (rule r(2))
next
  assume h: "p < length encodedUrl
    \<and> (encodedUrl ! p = CHR ''+'' \<or> encodedUrl ! p = CHR ''/'')"
  then have n: "base64urlDecodeMap (encodedUrl ! p) = None" "encodedUrl ! p \<noteq> CHR ''=''"
    using base64urlDecodeMap_crossover by auto
  from h have q: "p < length encodedUrl" by simp
  note r = decodeBase64_crossover_first [of p encodedUrl base64urlDecodeMap, OF q n]
  show "\<exists>e. decodeBase64url encodedUrl = Inl e"
    unfolding decodeBase64url_def by (rule r(1))
  show "\<exists>e. decodeBase64urlIgnorePadding encodedUrl = Inl e"
    unfolding decodeBase64urlIgnorePadding_def by (rule r(1))
  show "decodeBase64url encodedUrl = Inl InvalidCharacter"
    if "(\<forall>k. p - p mod 4 \<le> k \<and> k < p \<longrightarrow> encodedUrl ! k \<noteq> CHR ''='')
      \<and> (\<forall>e. decodeBase64url (take (p - p mod 4) encodedUrl) = Inl e
            \<longrightarrow> e = InvalidCharacter)"
    using that unfolding decodeBase64url_def by (rule r(2))
  show "decodeBase64urlIgnorePadding encodedUrl = Inl InvalidCharacter"
    if "(\<forall>k. p - p mod 4 \<le> k \<and> k < p \<longrightarrow> encodedUrl ! k \<noteq> CHR ''='')
      \<and> (\<forall>e. decodeBase64urlIgnorePadding (take (p - p mod 4) encodedUrl) = Inl e
            \<longrightarrow> e = InvalidCharacter)"
    using that unfolding decodeBase64urlIgnorePadding_def by (rule r(2))
qed

theorem crossover_characters_witness:
  "9 < length ''!AAASGVsb-8='' \<and> ''!AAASGVsb-8='' ! 9 = CHR ''-''
   \<and> ''!AAASGVsb-8='' ! 8 = CHR ''b''
   \<and> decodeBase64 (take (9 - 9 mod 4) ''!AAASGVsb-8='') = Inl InvalidCharacter
   \<and> decodeBase64IgnorePadding (take (9 - 9 mod 4) ''!AAASGVsb-8='') = Inl InvalidCharacter
   \<and> decodeBase64 ''!AAASGVsb-8='' = Inl InvalidCharacter
   \<and> decodeBase64IgnorePadding ''!AAASGVsb-8='' = Inl InvalidCharacter
   \<and> 5 < length ''SGVsb/8='' \<and> ''SGVsb/8='' ! 5 = CHR ''/''
   \<and> ''SGVsb/8='' ! 4 = CHR ''b''
   \<and> decodeBase64url (take (5 - 5 mod 4) ''SGVsb/8='') = Inr [72, 101, 108]
   \<and> decodeBase64urlIgnorePadding (take (5 - 5 mod 4) ''SGVsb/8='') = Inr [72, 101, 108]
   \<and> decodeBase64url ''SGVsb/8='' = Inl InvalidCharacter
   \<and> decodeBase64urlIgnorePadding ''SGVsb/8='' = Inl InvalidCharacter"
proof -
  have k8: "k = 8" if "9 - 9 mod 4 \<le> k \<and> k < 9" for k :: nat
    using that by simp
  have k4: "k = 4" if "5 - 5 mod 4 \<le> k \<and> k < 5" for k :: nat
    using that by simp
  have h: "9 < length ''!AAASGVsb-8=''
      \<and> (''!AAASGVsb-8='' ! 9 = CHR ''-'' \<or> ''!AAASGVsb-8='' ! 9 = CHR ''_'')"
    by simp
  have p1: "decodeBase64 (take (9 - 9 mod 4) ''!AAASGVsb-8='') = Inl InvalidCharacter"
    by code_simp
  have p2: "decodeBase64IgnorePadding (take (9 - 9 mod 4) ''!AAASGVsb-8='')
      = Inl InvalidCharacter"
    by code_simp
  have a: "\<forall>k. 9 - 9 mod 4 \<le> k \<and> k < 9 \<longrightarrow> ''!AAASGVsb-8='' ! k \<noteq> CHR ''=''"
    using k8 by auto
  have hu: "5 < length ''SGVsb/8=''
      \<and> (''SGVsb/8='' ! 5 = CHR ''+'' \<or> ''SGVsb/8='' ! 5 = CHR ''/'')"
    by simp
  have u1: "decodeBase64url (take (5 - 5 mod 4) ''SGVsb/8='') = Inr [72, 101, 108]"
    by code_simp
  have u2: "decodeBase64urlIgnorePadding (take (5 - 5 mod 4) ''SGVsb/8='') = Inr [72, 101, 108]"
    by code_simp
  have b: "\<forall>k. 5 - 5 mod 4 \<le> k \<and> k < 5 \<longrightarrow> ''SGVsb/8='' ! k \<noteq> CHR ''=''"
    using k4 by auto
  note t = crossover_characters [where q = 9 and encoded = "''!AAASGVsb-8=''" and p = 5
      and encodedUrl = "''SGVsb/8=''"]
  note t1 = t [THEN conjunct1, rule_format, OF h]
  note t2 = t [THEN conjunct2, rule_format, OF hu]
  have c1: "decodeBase64 ''!AAASGVsb-8='' = Inl InvalidCharacter"
    using t1 [THEN conjunct2, THEN conjunct2, THEN conjunct1, rule_format] p1 a by simp
  have c2: "decodeBase64IgnorePadding ''!AAASGVsb-8='' = Inl InvalidCharacter"
    using t1 [THEN conjunct2, THEN conjunct2, THEN conjunct2, rule_format] p2 a by simp
  have c3: "decodeBase64url ''SGVsb/8='' = Inl InvalidCharacter"
    using t2 [THEN conjunct2, THEN conjunct2, THEN conjunct1, rule_format] u1 b by simp
  have c4: "decodeBase64urlIgnorePadding ''SGVsb/8='' = Inl InvalidCharacter"
    using t2 [THEN conjunct2, THEN conjunct2, THEN conjunct2, rule_format] u2 b by simp
  show ?thesis
    by (intro conjI p1 p2 c1 c2 u1 u2 c3 c4) simp_all
qed

text \<open>
  Claim C8. When the bit length \<open>8 * n\<close> of the input is not a multiple of the group
  width \<open>k\<close>, \<open>r = 8 * n mod k\<close> bits of the last byte remain for the last data
  character. That character is the alphabet entry whose index has these \<open>r\<close> bits on
  the left and \<open>k - r\<close> zero bits on the right. It is the last character of the unpadded
  text, and the padded text is the unpadded text followed by pad characters only.
  For Base32 and a single byte \<open>b\<close>, the second character is the alphabet entry at index
  \<^verbatim>\<open>(b << 2) & 0x1f\<close>.
\<close>

theorem encode_last_data_character:
  "(8 * length bytes mod 6 \<noteq> 0 \<longrightarrow>
      last (encodeBase64NoPadding bytes) =
        base64Alphabet ! unat (push_bit (6 - 8 * length bytes mod 6)
                                 (take_bit (8 * length bytes mod 6) (last bytes)))
      \<and> last (encodeBase64urlNoPadding bytes) =
        base64urlAlphabet ! unat (push_bit (6 - 8 * length bytes mod 6)
                                    (take_bit (8 * length bytes mod 6) (last bytes))))
   \<and> (8 * length bytes mod 5 \<noteq> 0 \<longrightarrow>
      last (encodeBase32UpperCaseNoPadding bytes) =
        base32UpperCaseAlphabet ! unat (push_bit (5 - 8 * length bytes mod 5)
                                          (take_bit (8 * length bytes mod 5) (last bytes)))
      \<and> last (encodeBase32LowerCaseNoPadding bytes) =
        base32LowerCaseAlphabet ! unat (push_bit (5 - 8 * length bytes mod 5)
                                          (take_bit (8 * length bytes mod 5) (last bytes))))
   \<and> (\<exists>m. encodeBase64 bytes = encodeBase64NoPadding bytes @ replicate m CHR ''='')
   \<and> (\<exists>m. encodeBase64url bytes = encodeBase64urlNoPadding bytes @ replicate m CHR ''='')
   \<and> (\<exists>m. encodeBase32UpperCase bytes =
            encodeBase32UpperCaseNoPadding bytes @ replicate m CHR ''='')
   \<and> (\<exists>m. encodeBase32LowerCase bytes =
            encodeBase32LowerCaseNoPadding bytes @ replicate m CHR ''='')
   \<and> encodeBase32UpperCase [b] ! 1 =
        base32UpperCaseAlphabet ! nat (push_bit 2 (uint b) AND 0x1f)
   \<and> encodeBase32LowerCase [b] ! 1 =
        base32LowerCaseAlphabet ! nat (push_bit 2 (uint b) AND 0x1f)"
  unfolding encodeBase32UpperCase_def encodeBase32LowerCase_def
    encodeBase32UpperCaseNoPadding_def encodeBase32LowerCaseNoPadding_def
    encodeBase64_def encodeBase64NoPadding_def encodeBase64url_def
    encodeBase64urlNoPadding_def
  by (intro conjI impI base64_last_data_character base32_last_data_character
      base64_padded_unpadded base32_padded_unpadded base32_single_byte_second_character
      alphabet_lengths)

theorem encode_last_data_character_witness:
  "8 * length [171 :: byte] mod 6 \<noteq> 0 \<and> 8 * length [171 :: byte] mod 5 \<noteq> 0
   \<and> last (encodeBase64NoPadding [171]) = CHR ''w''
   \<and> last (encodeBase64urlNoPadding [171]) = CHR ''w''
   \<and> last (encodeBase32UpperCaseNoPadding [171]) = CHR ''M''
   \<and> last (encodeBase32LowerCaseNoPadding [171]) = CHR ''m''"
  using encode_last_data_character [of "[171]"]
  by (simp add: base64Alphabet_def base64urlAlphabet_def base32UpperCaseAlphabet_def
      base32LowerCaseAlphabet_def)

text \<open>
  Claim C9, as stated, does not hold: at a window position after the end of the input,
  the Base64 decoder that requires padding does not always raise
  \<^verbatim>\<open>"Invalid character"\<close>. Its test of the preceding position comes first, so in
  \<^verbatim>\<open>"AA="\<close>, where position 3 is after the end and position 2 holds a pad, the error
  is \<^verbatim>\<open>"Invalid padding"\<close>.
\<close>

theorem unaligned_input_counterexample:
  "''AA='' \<noteq> [] \<and> length ''AA='' mod 4 \<noteq> 0
   \<and> length ''AA='' \<le> 0 + 3
   \<and> decodeBase64_char ''AA='' base64DecodeMap Required 0 3 (0, 12) = Inl InvalidPadding
   \<and> decodeBase64_chars ''AA='' base64DecodeMap Required 0 = Inl InvalidPadding
   \<and> decodeBase64 ''AA='' = Inl InvalidPadding
   \<and> decodeBase64 ''AA='' \<noteq> Inl InvalidCharacter"
  by code_simp

text \<open>
  Claim C9, amended. In the mode that requires padding, \<^verbatim>\<open>decodeBase64\<close> and
  \<^verbatim>\<open>decodeBase64url\<close> fail on every string whose length is not a multiple of 4, and
  \<^verbatim>\<open>decodeBase32\<close> on every string whose length is not a multiple of 8. At a window
  position after the end of the input, the Base32 decoder raises
  \<^verbatim>\<open>"Invalid padding"\<close>; the Base64 decoder raises \<^verbatim>\<open>"Invalid padding"\<close> when the
  preceding position of the window holds a pad, and \<^verbatim>\<open>"Invalid character"\<close>
  otherwise. So when the windows before the last one decode and the characters of the
  last, incomplete window are all characters of the decode map, the Base64 decoders
  return \<^verbatim>\<open>"Invalid character"\<close> and the Base32 decoders \<^verbatim>\<open>"Invalid padding"\<close>.
\<close>

theorem unaligned_input_rejected:
  "(length encoded mod 4 \<noteq> 0
    \<longrightarrow> (\<exists>e. decodeBase64 encoded = Inl e) \<and> (\<exists>e. decodeBase64url encoded = Inl e))
   \<and> (length encoded mod 4 \<noteq> 0
      \<and> (\<exists>bytes. decodeBase64_internal
            (take (length encoded - length encoded mod 4) encoded) decodeMap Required
            = Inr bytes)
      \<and> (\<forall>k. length encoded - length encoded mod 4 \<le> k \<and> k < length encoded \<longrightarrow>
            decodeMap (encoded ! k) \<noteq> None \<and> encoded ! k \<noteq> CHR ''='')
    \<longrightarrow> decodeBase64_internal encoded decodeMap Required = Inl InvalidCharacter)
   \<and> (length encoded \<le> i + j
    \<longrightarrow> decodeBase64_char encoded decodeMap Required i j s
        = Inl (if 0 < j \<and> str_at encoded (i + j - 1) = Some CHR ''=''
               then InvalidPadding else InvalidCharacter))
   \<and> (length encodedB mod 8 \<noteq> 0 \<longrightarrow> (\<exists>e. decodeBase32 encodedB = Inl e))
   \<and> (length encodedB mod 8 \<noteq> 0
      \<and> (\<exists>bytes. decodeBase32_internal
            (take (length encodedB - length encodedB mod 8) encodedB) decodeMapB Required
            = Inr bytes)
      \<and> (\<forall>k. length encodedB - length encodedB mod 8 \<le> k \<and> k < length encodedB \<longrightarrow>
            decodeMapB (encodedB ! k) \<noteq> None \<and> encodedB ! k \<noteq> CHR ''='')
    \<longrightarrow> decodeBase32_internal encodedB decodeMapB Required = Inl InvalidPadding)
   \<and> (length encodedB \<le> iB + jB
    \<longrightarrow> decodeBase32_char encodedB decodeMapB Required iB jB sB = Inl InvalidPadding)"
proof (intro conjI impI)
  assume "length encoded mod 4 \<noteq> 0"
  then show "\<exists>e. decodeBase64 encoded = Inl e" "\<exists>e. decodeBase64url encoded = Inl e"
    unfolding decodeBase64_def decodeBase64url_def by (rule decodeBase64_unaligned)+
next
  assume "length encoded mod 4 \<noteq> 0
      \<and> (\<exists>bytes. decodeBase64_internal
            (take (length encoded - length encoded mod 4) encoded) decodeMap Required
            = Inr bytes)
      \<and> (\<forall>k. length encoded - length encoded mod 4 \<le> k \<and> k < length encoded \<longrightarrow>
            decodeMap (encoded ! k) \<noteq> None \<and> encoded ! k \<noteq> CHR ''='')"
  then show "decodeBase64_internal encoded decodeMap Required = Inl InvalidCharacter"
    using decodeBase64_unaligned_kind [of encoded decodeMap] by blast
next
  assume "length encoded \<le> i + j"
  then show "decodeBase64_char encoded decodeMap Required i j s
        = Inl (if 0 < j \<and> str_at encoded (i + j - 1) = Some CHR ''=''
               then InvalidPadding else InvalidCharacter)"
    by (rule decodeBase64_char_end_required)
next
  assume "length encodedB mod 8 \<noteq> 0"
  then show "\<exists>e. decodeBase32 encodedB = Inl e"
    unfolding decodeBase32_def by (rule decodeBase32_unaligned)
next
  assume "length encodedB mod 8 \<noteq> 0
      \<and> (\<exists>bytes. decodeBase32_internal
            (take (length encodedB - length encodedB mod 8) encodedB) decodeMapB Required
            = Inr bytes)
      \<and> (\<forall>k. length encodedB - length encodedB mod 8 \<le> k \<and> k < length encodedB \<longrightarrow>
            decodeMapB (encodedB ! k) \<noteq> None \<and> encodedB ! k \<noteq> CHR ''='')"
  then show "decodeBase32_internal encodedB decodeMapB Required = Inl InvalidPadding"
    using decodeBase32_unaligned_kind [of encodedB decodeMapB] by blast
next
  assume "length encodedB \<le> iB + jB"
  then show "decodeBase32_char encodedB decodeMapB Required iB jB sB = Inl InvalidPadding"
    by (rule decodeBase32_char_end_required)
qed

theorem unaligned_input_rejected_witness:
  "length ''AAAAAA'' mod 4 \<noteq> 0
   \<and> decodeBase64_internal (take (length ''AAAAAA'' - length ''AAAAAA'' mod 4) ''AAAAAA'')
        base64DecodeMap Required = Inr [0, 0, 0]
   \<and> base64DecodeMap (''AAAAAA'' ! 4) = Some 0 \<and> base64DecodeMap (''AAAAAA'' ! 5) = Some 0
   \<and> decodeBase64_internal ''AAAAAA'' base64DecodeMap Required = Inl InvalidCharacter
   \<and> length ''AAAAAA'' \<le> 4 + 2
   \<and> decodeBase64_char ''AAAAAA'' base64DecodeMap Required 4 2 (0, 12) = Inl InvalidCharacter
   \<and> (\<exists>e. decodeBase64url ''AAAAAA'' = Inl e)
   \<and> length ''AAAAAAAAAA'' mod 8 \<noteq> 0
   \<and> decodeBase32_internal
        (take (length ''AAAAAAAAAA'' - length ''AAAAAAAAAA'' mod 8) ''AAAAAAAAAA'')
        base32DecodeMap Required = Inr [0, 0, 0, 0, 0]
   \<and> base32DecodeMap (''AAAAAAAAAA'' ! 8) = Some 0 \<and> base32DecodeMap (''AAAAAAAAAA'' ! 9) = Some 0
   \<and> decodeBase32_internal ''AAAAAAAAAA'' base32DecodeMap Required = Inl InvalidPadding
   \<and> decodeBase32 ''AAAAAAAAAA'' = Inl InvalidPadding
   \<and> length ''AAAAAAAAAA'' \<le> 8 + 2
   \<and> decodeBase32_char ''AAAAAAAAAA'' base32DecodeMap Required 8 2 (0, 10) = Inl InvalidPadding"
proof -
  have l64: "length ''AAAAAA'' mod 4 \<noteq> 0" by simp
  have p64: "decodeBase64_internal (take (length ''AAAAAA'' - length ''AAAAAA'' mod 4) ''AAAAAA'')
        base64DecodeMap Required = Inr [0, 0, 0]"
    by code_simp
  have a64: "\<forall>k. length ''AAAAAA'' - length ''AAAAAA'' mod 4 \<le> k \<and> k < length ''AAAAAA'' \<longrightarrow>
         base64DecodeMap (''AAAAAA'' ! k) \<noteq> None \<and> ''AAAAAA'' ! k \<noteq> CHR ''=''"
  proof (intro allI impI)
    fix k :: nat
    assume "length ''AAAAAA'' - length ''AAAAAA'' mod 4 \<le> k \<and> k < length ''AAAAAA''"
    then have "k = 4 \<or> k = 5" by auto
    then show "base64DecodeMap (''AAAAAA'' ! k) \<noteq> None \<and> ''AAAAAA'' ! k \<noteq> CHR ''=''"
      by (auto simp: base64DecodeMap_def)
  qed
  have e64: "length ''AAAAAA'' \<le> 4 + 2" by simp
  have l32: "length ''AAAAAAAAAA'' mod 8 \<noteq> 0" by simp
  have p32: "decodeBase32_internal
        (take (length ''AAAAAAAAAA'' - length ''AAAAAAAAAA'' mod 8) ''AAAAAAAAAA'')
        base32DecodeMap Required = Inr [0, 0, 0, 0, 0]"
    by code_simp
  have a32: "\<forall>k. length ''AAAAAAAAAA'' - length ''AAAAAAAAAA'' mod 8 \<le> k
           \<and> k < length ''AAAAAAAAAA'' \<longrightarrow>
         base32DecodeMap (''AAAAAAAAAA'' ! k) \<noteq> None \<and> ''AAAAAAAAAA'' ! k \<noteq> CHR ''=''"
  proof (intro allI impI)
    fix k :: nat
    assume "length ''AAAAAAAAAA'' - length ''AAAAAAAAAA'' mod 8 \<le> k
           \<and> k < length ''AAAAAAAAAA''"
    then have "k = 8 \<or> k = 9" by auto
    then show "base32DecodeMap (''AAAAAAAAAA'' ! k) \<noteq> None \<and> ''AAAAAAAAAA'' ! k \<noteq> CHR ''=''"
      by (auto simp: base32DecodeMap_def)
  qed
  have e32: "length ''AAAAAAAAAA'' \<le> 8 + 2" by simp
  note t = unaligned_input_rejected [where encoded = "''AAAAAA''" and decodeMap = base64DecodeMap
      and i = 4 and j = 2 and s = "(0, 12)" and encodedB = "''AAAAAAAAAA''"
      and decodeMapB = base32DecodeMap and iB = 8 and jB = 2 and sB = "(0, 10)"]
  have c1: "\<exists>e. decodeBase64url ''AAAAAA'' = Inl e"
    using t [THEN conjunct1, rule_format, OF l64] by blast
  have c2: "decodeBase64_internal ''AAAAAA'' base64DecodeMap Required = Inl InvalidCharacter"
    using t [THEN conjunct2, THEN conjunct1, rule_format] l64 p64 a64 by blast
  have c3: "decodeBase64_char ''AAAAAA'' base64DecodeMap Required 4 2 (0, 12)
      = Inl InvalidCharacter"
    using t [THEN conjunct2, THEN conjunct2, THEN conjunct1, rule_format, OF e64]
    by (simp add: str_at_def)
  have c4: "decodeBase32 ''AAAAAAAAAA'' = Inl InvalidPadding"
    unfolding decodeBase32_def
    using t [THEN conjunct2, THEN conjunct2, THEN conjunct2, THEN conjunct2, THEN conjunct1,
        rule_format] l32 p32 a32 by blast
  have c5: "decodeBase32_internal ''AAAAAAAAAA'' base32DecodeMap Required = Inl InvalidPadding"
    using c4 unfolding decodeBase32_def .
  have c6: "decodeBase32_char ''AAAAAAAAAA'' base32DecodeMap Required 8 2 (0, 10)
      = Inl InvalidPadding"
    using t [THEN conjunct2, THEN conjunct2, THEN conjunct2, THEN conjunct2, THEN conjunct2,
        rule_format, OF e32] .
  show ?thesis
    by (intro conjI l64 p64 c2 e64 c3 c1 l32 p32 c5 c4 e32 c6)
      (simp_all add: base64DecodeMap_def base32DecodeMap_def)
qed

text \<open>
  Claim C10. The decoders that ignore padding also accept padded text: applied to the
  output of the padded encoder they return the bytes that were encoded.
\<close>

theorem decode_ignore_padding_of_padded:
  "decodeBase64IgnorePadding (encodeBase64 B) = Inr B
   \<and> decodeBase64urlIgnorePadding (encodeBase64url B) = Inr B
   \<and> decodeBase32IgnorePadding (encodeBase32UpperCase B) = Inr B
   \<and> decodeBase32IgnorePadding (encodeBase32LowerCase B) = Inr B"
  unfolding decodeBase32IgnorePadding_def encodeBase32UpperCase_def encodeBase32LowerCase_def
    decodeBase64IgnorePadding_def decodeBase64urlIgnorePadding_def encodeBase64_def
    encodeBase64url_def
  by (intro conjI base32_roundtrip_padded base64_roundtrip_padded
      base32_upper_alphabet_ok base32_lower_alphabet_ok base64_alphabet_ok
      base64url_alphabet_ok alphabet_lengths)

end
